theory Spec2Isabelle
  imports Main "HOL-Library.Word" "HOL-Library.Char_ord" "HOL-Library.List_Lexorder"
begin

section \<open>Strings\<close>

text \<open>
  A JavaScript string is modelled as a \<^typ>\<open>string\<close>: a list of code units, here over an
  8-bit alphabet. The operations of the source that look inside a string (\<open>split\<close>,
  \<open>indexOf\<close>, \<open>slice\<close>, \<open>trim\<close>, \<open>length\<close>, \<open>===\<close>, concatenation) act on code units and are
  defined below. The host functions that interpret a whole string (\<open>localeCompare\<close>,
  \<open>encodeURIComponent\<close>, \<open>decodeURIComponent\<close>, \<open>TextEncoder.encode\<close>, \<open>Number\<close>) are not part of
  the repository and are parameters of the model (record \<open>host\<close> below).
\<close>

text \<open>\<open>s.split(d)\<close> for a one-character separator: always at least one part.\<close>

fun split :: "char \<Rightarrow> string \<Rightarrow> string list" where
  "split d [] = [[]]"
| "split d (c # cs) =
     (if c = d then [] # split d cs
      else (case split d cs of [] \<Rightarrow> [[c]] | p # ps \<Rightarrow> (c # p) # ps))"

text \<open>\<open>parts.join(d)\<close>.\<close>

fun join :: "string \<Rightarrow> string list \<Rightarrow> string" where
  "join d [] = []"
| "join d [p] = p"
| "join d (p # q # ps) = p @ d @ join d (q # ps)"

text \<open>
  \<open>s.trim()\<close>: the white space of ECMAScript that exists in an 8-bit alphabet
  (TAB, LF, VT, FF, CR, SP, NBSP).
\<close>

definition is_space :: "char \<Rightarrow> bool" where
  "is_space c \<longleftrightarrow>
     c \<in> set [CHR 0x09, CHR 0x0A, CHR 0x0B, CHR 0x0C, CHR 0x0D, CHR 0x20, CHR 0xA0]"

definition trim :: "string \<Rightarrow> string" where
  "trim s = rev (dropWhile is_space (rev (dropWhile is_space s)))"

text \<open>
  Property lookup \<open>obj[k]\<close> on a plain object reaches \<open>Object.prototype\<close> when \<open>obj\<close> has no
  own property \<open>k\<close>; these are the names found there, all of them truthy.
\<close>

definition object_prototype_keys :: "string list" where
  "object_prototype_keys =
     [''constructor'', ''toString'', ''toLocaleString'', ''valueOf'', ''hasOwnProperty'',
      ''isPrototypeOf'', ''propertyIsEnumerable'', ''__proto__'', ''__defineGetter__'',
      ''__defineSetter__'', ''__lookupGetter__'', ''__lookupSetter__'']"

text \<open>\<open>!!obj[k]\<close> for an object whose own values are all truthy.\<close>

definition truthy_at :: "(string \<rightharpoonup> 'v) \<Rightarrow> string \<Rightarrow> bool" where
  "truthy_at obj k \<longleftrightarrow> obj k \<noteq> None \<or> k \<in> set object_prototype_keys"

section \<open>Host capabilities\<close>

datatype exn = URIError | Error string

text \<open>
  The object that \<open>lumen.wallet.verifyArbitrary\<close> resolves to. A field that may be absent
  (\<open>undefined\<close> or \<open>null\<close>, what \<open>??\<close> tests) is an option; the other fields are read through
  \<open>||\<close> and \<open>!!\<close>, so that an absent string is the empty string and an absent flag is false.
\<close>

record verify_res =
  res_ok :: bool
  res_signatureValid :: "bool option"
  res_addressMatches :: "bool option"
  res_derivedAddress :: string
  res_derivedAddr :: string
  res_error :: string

text \<open>
  What the code takes from its environment:
  \<^item> \<open>localeCompare a b\<close> is \<open>a.localeCompare(b)\<close>;
  \<^item> \<open>encodeURIComponent\<close> and \<open>decodeURIComponent\<close> return \<open>None\<close> where the host function
    throws \<open>URIError\<close>;
  \<^item> \<open>textEncode s\<close> is \<open>new TextEncoder().encode(s)\<close>, the UTF-8 bytes of \<open>s\<close>;
  \<^item> \<open>subtleDigest\<close> is \<open>window.crypto.subtle.digest\<close> (algorithm name, data), \<open>None\<close> when
    WebCrypto is not available;
  \<^item> \<open>verifyArbitrary\<close> is \<open>window.lumen.wallet.verifyArbitrary\<close> applied to \<open>payload\<close>,
    \<open>signatureB64\<close>, \<open>pubkeyB64\<close>, \<open>address\<close> (the algorithm is always \<open>ADR-036\<close>); \<open>None\<close>
    when the capability is absent, \<open>Inl\<close> when the call rejects, \<open>Inr None\<close> when it resolves
    to a falsy value;
  \<^item> \<open>toNumber s\<close> is \<open>Number(s)\<close> for a time stamp, \<open>None\<close> for \<open>NaN\<close>.
\<close>

record host =
  localeCompare :: "string \<Rightarrow> string \<Rightarrow> int"
  encodeURIComponent :: "string \<Rightarrow> string option"
  decodeURIComponent :: "string \<Rightarrow> string option"
  textEncode :: "string \<Rightarrow> 8 word list"
  subtleDigest :: "(string \<Rightarrow> 8 word list \<Rightarrow> 8 word list) option"
  verifyArbitrary ::
    "(string \<Rightarrow> string \<Rightarrow> string \<Rightarrow> string \<Rightarrow> exn + verify_res option) option"
  toNumber :: "string \<Rightarrow> int option"

section \<open>Payload codec\<close>

text \<open>
  \<open>entries.sort((a, b) => a[0].localeCompare(b[0]))\<close>. \<open>Array.prototype.sort\<close> is stable; for
  a consistent comparator its result is the one of a stable insertion sort, which is how
  it is written here.
\<close>

fun insert_entry ::
  "(string \<Rightarrow> string \<Rightarrow> int) \<Rightarrow> string \<times> string \<Rightarrow> (string \<times> string) list \<Rightarrow> (string \<times> string) list"
where
  "insert_entry cmp a [] = [a]"
| "insert_entry cmp a (b # bs) =
     (if cmp (fst a) (fst b) \<le> 0 then a # b # bs else b # insert_entry cmp a bs)"

definition sort_entries ::
  "(string \<Rightarrow> string \<Rightarrow> int) \<Rightarrow> (string \<times> string) list \<Rightarrow> (string \<times> string) list"
where
  "sort_entries cmp es = foldr (insert_entry cmp) es []"

text \<open>
  The two surfaces carry one copy each of \<open>encodePayload\<close> and \<open>decodePayload\<close>; the copies
  differ in the protocol tag only, which is the argument \<open>tag\<close> here.
\<close>

definition chat_tag :: string where
  "chat_tag = ''pubsub_chat''"

definition livegame_tag :: string where
  "livegame_tag = ''pubsub_livegame''"

text \<open>
  \<open>encodePayload(type, fields)\<close>. The argument \<open>fields\<close> is \<open>Object.entries(fields)\<close> after the
  coercion of keys and values to strings, in the order of the object's properties.
  \<open>Inl URIError\<close> is the exception of \<open>encodeURIComponent\<close>.
\<close>

definition encode_part :: "host \<Rightarrow> string \<times> string \<Rightarrow> string option" where
  "encode_part h e =
     (case encodeURIComponent h (snd e) of
        None \<Rightarrow> None
      | Some v \<Rightarrow> Some (fst e @ ''='' @ v))"

definition encodePayload ::
  "host \<Rightarrow> string \<Rightarrow> string \<Rightarrow> (string \<times> string) list \<Rightarrow> exn + string"
where
  "encodePayload h tag type flds =
     (let entries = sort_entries (localeCompare h) flds in
      case those (map (encode_part h) entries) of
        None \<Rightarrow> Inl URIError
      | Some parts \<Rightarrow> Inr (tag @ ''|v1|'' @ type @ ''|'' @ join ''|'' parts))"

text \<open>
  The loop of \<open>decodePayload\<close> over \<open>parts.slice(3)\<close>. \<open>i = p.indexOf('=')\<close>; a part with
  \<open>i <= 0\<close> is skipped. The values stored are strings, so the assignment \<open>obj['__proto__'] = v\<close>
  (the setter of \<open>Object.prototype\<close>) stores nothing.
\<close>

fun decode_parts :: "host \<Rightarrow> string list \<Rightarrow> (string \<rightharpoonup> string) \<Rightarrow> (string \<rightharpoonup> string) option" where
  "decode_parts h [] obj = Some obj"
| "decode_parts h (p # ps) obj =
     (let k = takeWhile (\<lambda>c. c \<noteq> CHR ''='') p in
      if CHR ''='' \<notin> set p \<or> k = [] then decode_parts h ps obj
      else (case decodeURIComponent h (drop (length k + 1) p) of
              None \<Rightarrow> None
            | Some v \<Rightarrow>
                decode_parts h ps (if k = ''__proto__'' then obj else obj(k \<mapsto> v))))"

text \<open>
  \<open>decodePayload(payload)\<close>: \<open>Inl URIError\<close> when \<open>decodeURIComponent\<close> throws, \<open>Inr None\<close> for
  \<open>null\<close>, and otherwise the object \<open>{ type, ...obj }\<close>, in which a field named \<open>type\<close> of
  the payload replaces the type segment.
\<close>

definition decodePayload :: "host \<Rightarrow> string \<Rightarrow> string \<Rightarrow> exn + (string \<rightharpoonup> string) option" where
  "decodePayload h tag payload =
     (let parts = split (CHR ''|'') payload in
      if length parts < 4 then Inr None
      else if parts ! 0 \<noteq> tag \<or> parts ! 1 \<noteq> ''v1'' then Inr None
      else (case decode_parts h (drop 3 parts) Map.empty of
              None \<Rightarrow> Inl URIError
            | Some obj \<Rightarrow> Inr (Some ([''type'' \<mapsto> parts ! 2] ++ obj))))"

section \<open>Proof of work\<close>

definition POW_DIFFICULTY_BITS :: int where
  "POW_DIFFICULTY_BITS = 12"

definition AUTO_BLOCK_WINDOW_MS :: int where
  "AUTO_BLOCK_WINDOW_MS = 2000"

definition AUTO_BLOCK_MAX_MESSAGES :: nat where
  "AUTO_BLOCK_MAX_MESSAGES = 10"

text \<open>
  The inner loop of \<open>leadingZeroBits\<close>, \<open>for (let i = 7; i >= 0; i--)\<close>, with \<open>n = i + 1\<close>
  iterations left: it returns at the first set bit, and after the last iteration.
\<close>

fun scan_byte :: "8 word \<Rightarrow> nat \<Rightarrow> nat \<Rightarrow> nat" where
  "scan_byte b 0 bits = bits"
| "scan_byte b (Suc i) bits =
     (if and b (push_bit i 1) \<noteq> 0 then bits else scan_byte b i (bits + 1))"

text \<open>The outer loop, with the running count \<open>bits\<close>.\<close>

fun leadingZeroBits_from :: "nat \<Rightarrow> 8 word list \<Rightarrow> nat" where
  "leadingZeroBits_from bits [] = bits"
| "leadingZeroBits_from bits (b # bs) =
     (if b = 0 then leadingZeroBits_from (bits + 8) bs else scan_byte b 8 bits)"

definition leadingZeroBits :: "8 word list \<Rightarrow> nat" where
  "leadingZeroBits bytes = leadingZeroBits_from 0 bytes"

text \<open>\<open>sha256Utf8(str)\<close>: throws when WebCrypto is not available.\<close>

definition sha256Utf8 :: "host \<Rightarrow> string \<Rightarrow> exn + 8 word list" where
  "sha256Utf8 h s =
     (case subtleDigest h of
        None \<Rightarrow> Inl (Error ''WebCrypto unavailable (crypto.subtle.digest)'')
      | Some digest \<Rightarrow> Inr (digest ''SHA-256'' (textEncode h s)))"

definition hasValidPow :: "host \<Rightarrow> string \<Rightarrow> int \<Rightarrow> exn + bool" where
  "hasValidPow h payload bits =
     (case sha256Utf8 h payload of
        Inl e \<Rightarrow> Inl e
      | Inr hash \<Rightarrow> Inr (int (leadingZeroBits hash) \<ge> bits))"

text \<open>
  The count of leading zero bits as the words of the specification have it: the bits of
  the digest written out from the most significant bit of the first byte, eight per byte,
  and the length of the run of zeros at the front.
\<close>

definition byte_bits :: "8 word \<Rightarrow> bool list" where
  "byte_bits b = map (bit b) (rev [0..<8])"

definition leading_zero_bit_count :: "8 word list \<Rightarrow> nat" where
  "leading_zero_bit_count bytes = length (takeWhile Not (concat (map byte_bits bytes)))"

section \<open>Chat surface\<close>

subsection \<open>State\<close>

record message =
  msg_id :: string
  msg_addr :: string
  msg_text :: string
  msg_ts :: int

record block_entry =
  blk_addr :: string
  blk_name :: string
  blk_blockedAt :: int
  blk_reason :: string

record rx_stats =
  total :: nat
  accepted :: nat
  dropped :: nat
  lastDrop :: string

text \<open>
  The React state and the refs that the inbound handler reads and writes. State setters are
  called with updater functions, which React applies in the order of the calls; the model
  applies them at once, so a state field holds what the next updater will find. A ref is
  read and written directly. \<open>blockedByAddr\<close> is the state of that name, which \<open>blockUser\<close>
  updates, and \<open>blockedByAddrRef\<close> is the ref that \<open>isBlocked\<close> reads: an effect copies
  the state into it after React has committed a change of the state, and until then it
  holds the blocklist of the previous commit. \<open>seenMsgId\<close> is a JavaScript \<open>Set\<close>: its
  elements in insertion order, without repetition.
\<close>

record chat_state =
  messages :: "message list"
  nameByAddr :: "string \<rightharpoonup> string"
  rxStats :: rx_stats
  blockedByAddr :: "string \<rightharpoonup> block_entry"
  blockedByAddrRef :: "string \<rightharpoonup> block_entry"
  lastAcceptedAt :: "string \<rightharpoonup> int"
  recentNonces :: "string \<rightharpoonup> string list"
  seenMsgId :: "string list"
  spamWindow :: "string \<rightharpoonup> int list"

text \<open>
  What the handler's closure holds from the render in which \<open>connect\<close> ran: the topic, and
  the \<open>status.address\<close> and \<open>nameByAddr\<close> that \<open>blockUser\<close> reads.
\<close>

record session =
  sess_topic :: string
  sess_status_address :: string
  sess_nameByAddr :: "string \<rightharpoonup> string"

text \<open>
  The readings of \<open>nowMs()\<close> while one envelope is handled: in \<open>recordSpam\<close>, in \<open>blockUser\<close>,
  in \<open>isRateLimited\<close>, and for the time stamp of a message that carries none.
\<close>

record clock =
  now_spam :: int
  now_block :: int
  now_rate :: int
  now_push :: int

text \<open>
  The transport's message \<open>m\<close>: \<open>m.json\<close> when it is an object, with its four fields as
  \<open>String(data.f || '')\<close> gives them, and \<open>m.text\<close>.
\<close>

record envelope =
  env_payload :: string
  env_address :: string
  env_pubkeyB64 :: string
  env_signatureB64 :: string

record inbound =
  m_json :: "envelope option"
  m_text :: string

text \<open>
  The state that \<open>connect\<close> sets up before it subscribes, for a loaded blocklist that React
  has committed: the state and the ref both hold it.
\<close>

definition connected :: "(string \<rightharpoonup> block_entry) \<Rightarrow> chat_state" where
  "connected blocklist =
     \<lparr>messages = [], nameByAddr = Map.empty,
      rxStats = \<lparr>total = 0, accepted = 0, dropped = 0, lastDrop = []\<rparr>,
      blockedByAddr = blocklist, blockedByAddrRef = blocklist, lastAcceptedAt = Map.empty, recentNonces = Map.empty,
      seenMsgId = [], spamWindow = Map.empty\<rparr>"

subsection \<open>Operations\<close>

definition markSeenNonce :: "string \<Rightarrow> string \<Rightarrow> chat_state \<Rightarrow> bool \<times> chat_state" where
  "markSeenNonce address nonce st =
     (let addr = trim address; n = trim nonce in
      if addr = [] \<or> n = [] then (False, st)
      else
        let existing = (case recentNonces st addr of None \<Rightarrow> [] | Some ns \<Rightarrow> ns) in
        if n \<in> set existing then (False, st)
        else
          let next = (if length existing \<ge> 24 then drop (length existing - 20) existing
                      else existing) @ [n]
          in (True, st\<lparr>recentNonces := (recentNonces st)(addr \<mapsto> next)\<rparr>))"

definition isRateLimited :: "int \<Rightarrow> string \<Rightarrow> chat_state \<Rightarrow> bool \<times> chat_state" where
  "isRateLimited now address st =
     (let addr = trim address in
      if addr = [] then (True, st)
      else
        let last = (case lastAcceptedAt st addr of None \<Rightarrow> 0 | Some t \<Rightarrow> t) in
        if now - last < 1000 then (True, st)
        else (False, st\<lparr>lastAcceptedAt := (lastAcceptedAt st)(addr \<mapsto> now)\<rparr>))"

definition recordSpam :: "int \<Rightarrow> string \<Rightarrow> chat_state \<Rightarrow> nat \<times> chat_state" where
  "recordSpam now address st =
     (let addr = trim address in
      if addr = [] then (0, st)
      else
        let prev = (case spamWindow st addr of None \<Rightarrow> [] | Some ts \<Rightarrow> ts);
            next = filter (\<lambda>t. now - t < AUTO_BLOCK_WINDOW_MS) prev @ [now]
        in (length next, st\<lparr>spamWindow := (spamWindow st)(addr \<mapsto> next)\<rparr>))"

definition updateName :: "string \<Rightarrow> string \<Rightarrow> chat_state \<Rightarrow> chat_state" where
  "updateName address nextNick st =
     (let addr = trim address; nn = take 22 (trim nextNick) in
      if addr = [] \<or> nn = [] then st
      else if nameByAddr st addr = Some nn then st
      else st\<lparr>nameByAddr := (nameByAddr st)(addr \<mapsto> nn)\<rparr>)"

text \<open>\<open>isBlocked(address)\<close> looks the address up in \<open>blockedByAddrRef.current\<close>.\<close>

definition isBlocked :: "chat_state \<Rightarrow> string \<Rightarrow> bool" where
  "isBlocked st address =
     (let addr = trim address in
      if addr = [] then False else truthy_at (blockedByAddrRef st) addr)"

text \<open>
  \<open>blockUser(address, reason, displayName)\<close>: it updates the state \<open>blockedByAddr\<close> and the
  history, and leaves the ref as it is. The toast it shows is presentation and is left
  out. In the display name, \<open>nameByAddr[addr]\<close> is read as an own property only.
\<close>

definition blockUser ::
  "session \<Rightarrow> int \<Rightarrow> string \<Rightarrow> string \<Rightarrow> string \<Rightarrow> chat_state \<Rightarrow> chat_state"
where
  "blockUser sess now address reason displayName st =
     (let addr = trim address in
      if addr = [] then st
      else if sess_status_address sess \<noteq> [] \<and> addr = sess_status_address sess then st
      else
        let known = (case sess_nameByAddr sess addr of None \<Rightarrow> [] | Some n \<Rightarrow> n);
            chosen = (if displayName \<noteq> [] then displayName
                      else if known \<noteq> [] then known else ''anon'');
            cut = take 22 (trim chosen);
            display = (if cut = [] then ''anon'' else cut);
            ts = now;
            prev = blockedByAddr st;
            next = (if truthy_at prev addr then prev
                    else prev(addr \<mapsto>
                      \<lparr>blk_addr = addr, blk_name = display, blk_blockedAt = ts,
                       blk_reason = (if reason = [] then ''manual'' else reason)\<rparr>))
        in st\<lparr>blockedByAddr := next,
               messages := filter (\<lambda>m. msg_addr m \<noteq> addr) (messages st)\<rparr>)"

text \<open>
  The effect on \<open>blockedByAddr\<close>, which runs after React has committed a render with a new
  value of that state: \<open>blockedByAddrRef.current = blockedByAddr || {}\<close>. Writing the
  blocklist to the local storage is left out.
\<close>

definition commit :: "chat_state \<Rightarrow> chat_state" where
  "commit st = st\<lparr>blockedByAddrRef := blockedByAddr st\<rparr>"

definition pushMessage :: "message \<Rightarrow> chat_state \<Rightarrow> chat_state" where
  "pushMessage entry st =
     (let prev = messages st;
          next = (if length prev > 240 then drop (length prev - 200) prev else prev) @ [entry]
      in st\<lparr>messages := next\<rparr>)"

text \<open>\<open>verifyPayload\<close> of the chat surface: it throws when the capability is absent.\<close>

record verified =
  v_ok :: bool
  v_signatureValid :: bool
  v_addressMatches :: bool
  v_derivedAddress :: string
  v_error :: string

definition verifyPayload ::
  "host \<Rightarrow> string \<Rightarrow> string \<Rightarrow> string \<Rightarrow> string \<Rightarrow> exn + verified"
where
  "verifyPayload h payload signatureB64 pubkeyB64 address =
     (case verifyArbitrary h of
        None \<Rightarrow> Inl (Error ''lumen.wallet.verifyArbitrary unavailable'')
      | Some verify \<Rightarrow>
          (case verify payload signatureB64 pubkeyB64 address of
             Inl e \<Rightarrow> Inl e
           | Inr None \<Rightarrow>
               Inr \<lparr>v_ok = False, v_signatureValid = False, v_addressMatches = False,
                    v_derivedAddress = [], v_error = []\<rparr>
           | Inr (Some res) \<Rightarrow>
               Inr \<lparr>v_ok = res_ok res,
                    v_signatureValid =
                      (case res_signatureValid res of None \<Rightarrow> res_ok res | Some b \<Rightarrow> b),
                    v_addressMatches =
                      (case res_addressMatches res of None \<Rightarrow> res_ok res | Some b \<Rightarrow> b),
                    v_derivedAddress =
                      trim (if res_derivedAddress res \<noteq> [] then res_derivedAddress res
                            else res_derivedAddr res),
                    v_error = res_error res\<rparr>))"

subsection \<open>The inbound handler\<close>

text \<open>\<open>String(parsed.f || '')\<close> for a decoded object.\<close>

definition field :: "(string \<rightharpoonup> string) \<Rightarrow> string \<Rightarrow> string" where
  "field parsed f = (case parsed f of None \<Rightarrow> [] | Some v \<Rightarrow> v)"

text \<open>\<open>s.replace(/\s+/g, ' ')\<close>; the flag says that the previous character was white space.\<close>

fun collapse_spaces :: "bool \<Rightarrow> string \<Rightarrow> string" where
  "collapse_spaces prev [] = []"
| "collapse_spaces prev (c # cs) =
     (if is_space c then (if prev then collapse_spaces True cs
                          else CHR '' '' # collapse_spaces True cs)
      else c # collapse_spaces False cs)"

text \<open>\<open>String(e?.message || e || '')\<close> for a caught exception.\<close>

fun exn_message :: "exn \<Rightarrow> string" where
  "exn_message URIError = ''URI malformed''"
| "exn_message (Error msg) = msg"

text \<open>
  How the handling of one envelope ends: the drop counter is incremented and \<open>lastDrop\<close> set
  (\<open>Dropped\<close>), the accepted counter is incremented (\<open>Accepted\<close>), or the handler returns
  without either (\<open>Ignored\<close>: a duplicate message identity, or an exception that the handler's
  own \<open>catch\<close> swallows).
\<close>

datatype outcome = Accepted | Dropped string | Ignored

text \<open>The verifications that the handler has started, in order.\<close>

datatype attempt = PowAttempt string | SigAttempt string string string string

definition drop_with :: "string \<Rightarrow> chat_state \<Rightarrow> chat_state \<times> outcome" where
  "drop_with r st =
     (st\<lparr>rxStats := (rxStats st)\<lparr>dropped := dropped (rxStats st) + 1, lastDrop := r\<rparr>\<rparr>,
      Dropped r)"

definition accept :: "chat_state \<Rightarrow> chat_state \<times> outcome" where
  "accept st =
     (st\<lparr>rxStats := (rxStats st)\<lparr>accepted := accepted (rxStats st) + 1\<rparr>\<rparr>, Accepted)"

text \<open>
  The first part of the handler, up to the canonical address: it changes no store.
  \<open>Inl (Some r)\<close> is a drop with reason \<open>r\<close>, \<open>Inl None\<close> a return without trace, and
  \<open>Inr (parsed, canonicalAddr, nonce)\<close> what the second part goes on with.
\<close>

definition identify ::
  "host \<Rightarrow> session \<Rightarrow> inbound \<Rightarrow>
     (string option + (string \<rightharpoonup> string) \<times> string \<times> string) \<times> attempt list"
where
  "identify h sess m =
     (case m_json m of
        None \<Rightarrow>
          (let sample = take 60 (collapse_spaces False (trim (m_text m))) in
           (Inl (Some (if sample \<noteq> [] then ''bad_json:'' @ sample else ''bad_json'')), []))
      | Some data \<Rightarrow>
          let payload = env_payload data;
              address = trim (env_address data);
              pubkeyB64 = trim (env_pubkeyB64 data);
              signatureB64 = trim (env_signatureB64 data)
          in
          if payload = [] \<or> address = [] \<or> pubkeyB64 = [] \<or> signatureB64 = []
          then (Inl (Some ''missing_fields''), [])
          else
            (case decodePayload h chat_tag payload of
               Inl e \<Rightarrow> (Inl None, [])
             | Inr None \<Rightarrow> (Inl (Some ''bad_payload''), [])
             | Inr (Some parsed) \<Rightarrow>
                 if field parsed ''room'' \<noteq> sess_topic sess
                 then (Inl (Some ''wrong_room''), [])
                 else
                   let nonce = trim (field parsed ''nonce'') in
                   if nonce = [] \<or> length nonce > 20 then (Inl (Some ''bad_nonce''), [])
                   else
                     (case hasValidPow h payload POW_DIFFICULTY_BITS of
                        Inl e \<Rightarrow>
                          (let suffix = trim (exn_message e) in
                           (Inl (Some (if suffix \<noteq> [] then ''pow_error:'' @ take 40 suffix
                                       else ''pow_error'')),
                            [PowAttempt payload]))
                      | Inr okPow \<Rightarrow>
                          if \<not> okPow then (Inl (Some ''bad_pow''), [PowAttempt payload])
                          else
                            let tried = [PowAttempt payload,
                                         SigAttempt payload signatureB64 pubkeyB64 address]
                            in
                            (case verifyPayload h payload signatureB64 pubkeyB64 address of
                               Inl e \<Rightarrow> (Inl None, tried)
                             | Inr v \<Rightarrow>
                                 if \<not> v_signatureValid v
                                 then
                                   (let suffix = (if v_error v \<noteq> []
                                                  then '':'' @ take 60 (v_error v) else [])
                                    in (Inl (Some (''bad_sig'' @ suffix)), tried))
                                 else
                                   let canonicalAddr =
                                         (if v_derivedAddress v \<noteq> [] then v_derivedAddress v
                                          else address)
                                   in (Inr (parsed, canonicalAddr, nonce), tried)))))"

text \<open>
  The second part of the handler is written in three pieces, each one going on into the
  next. The last piece is the validation by type and the delivery of a message to the
  local history.
\<close>

definition deliver ::
  "host \<Rightarrow> clock \<Rightarrow> (string \<rightharpoonup> string) \<Rightarrow> string \<Rightarrow> string \<Rightarrow> chat_state
     \<Rightarrow> chat_state \<times> outcome"
where
  "deliver h clk parsed canonicalAddr msgId st =
     (let kind = field parsed ''type'' in
      if kind = ''profile'' then accept st
      else if kind \<noteq> ''msg'' then drop_with ''unknown_type'' st
      else
        let txt = trim (field parsed ''text'') in
        if txt = [] then drop_with ''empty_text'' st
        else if length txt > 500 then drop_with ''text_too_long'' st
        else
          let given = (if field parsed ''ts'' = [] then Some 0
                       else toNumber h (field parsed ''ts''));
              ts = (case given of None \<Rightarrow> now_push clk
                    | Some n \<Rightarrow> if n = 0 then now_push clk else n)
          in accept (pushMessage
                       \<lparr>msg_id = msgId, msg_addr = canonicalAddr, msg_text = txt, msg_ts = ts\<rparr>
                       st))"

text \<open>The burst detector and the throttle.\<close>

definition throttle ::
  "host \<Rightarrow> session \<Rightarrow> clock \<Rightarrow> (string \<rightharpoonup> string) \<Rightarrow> string \<Rightarrow> string \<Rightarrow> string
     \<Rightarrow> chat_state \<Rightarrow> chat_state \<times> outcome"
where
  "throttle h sess clk parsed canonicalAddr msgId safeNick st =
     (case recordSpam (now_spam clk) canonicalAddr st of (spamCount, st1) \<Rightarrow>
      if spamCount > AUTO_BLOCK_MAX_MESSAGES
      then drop_with ''auto_blocked''
             (blockUser sess (now_block clk) canonicalAddr ''auto_spam'' safeNick st1)
      else
        (case isRateLimited (now_rate clk) canonicalAddr st1 of (limited, st2) \<Rightarrow>
         if limited then drop_with ''rate_limited'' st2
         else deliver h clk parsed canonicalAddr msgId st2))"

text \<open>Whole-message dedup, blocklist, nonce replay and display name.\<close>

definition admit ::
  "host \<Rightarrow> session \<Rightarrow> clock \<Rightarrow> (string \<rightharpoonup> string) \<Rightarrow> string \<Rightarrow> string \<Rightarrow> chat_state
     \<Rightarrow> chat_state \<times> outcome"
where
  "admit h sess clk parsed canonicalAddr nonce st =
     (let msgId = canonicalAddr @ '':'' @ nonce in
      if msgId \<in> set (seenMsgId st) then (st, Ignored)
      else
        let st1 = st\<lparr>seenMsgId := seenMsgId st @ [msgId]\<rparr> in
        if isBlocked st1 canonicalAddr then drop_with ''blocked'' st1
        else
          (case markSeenNonce canonicalAddr nonce st1 of (fresh, st2) \<Rightarrow>
           if \<not> fresh then drop_with ''nonce_replay'' st2
           else
             let safeNick = take 22 (trim (field parsed ''nick''));
                 st3 = (if safeNick \<noteq> [] then updateName canonicalAddr safeNick st2 else st2)
             in throttle h sess clk parsed canonicalAddr msgId safeNick st3))"

text \<open>The handler that \<open>connect\<close> subscribes: one envelope, from arrival to return.\<close>

definition onMessage ::
  "host \<Rightarrow> session \<Rightarrow> clock \<Rightarrow> inbound \<Rightarrow> chat_state \<Rightarrow> chat_state \<times> outcome \<times> attempt list"
where
  "onMessage h sess clk m st0 =
     (let st = st0\<lparr>rxStats := (rxStats st0)\<lparr>total := total (rxStats st0) + 1\<rparr>\<rparr> in
      case identify h sess m of
        (Inl (Some r), tried) \<Rightarrow> (case drop_with r st of (st', out) \<Rightarrow> (st', out, tried))
      | (Inl None, tried) \<Rightarrow> (st, Ignored, tried)
      | (Inr (parsed, canonicalAddr, nonce), tried) \<Rightarrow>
          (case admit h sess clk parsed canonicalAddr nonce st of
             (st', out) \<Rightarrow> (st', out, tried)))"

text \<open>
  Envelopes handled one after the other, each with its clock readings, when React commits
  the state after every one of them.
\<close>

fun run ::
  "host \<Rightarrow> session \<Rightarrow> (clock \<times> inbound) list \<Rightarrow> chat_state \<Rightarrow> chat_state \<times> outcome list"
where
  "run h sess [] st = (st, [])"
| "run h sess (e # es) st =
     (case onMessage h sess (fst e) (snd e) st of
        (st', out, tried) \<Rightarrow>
          (case run h sess es (commit st') of (st'', outs) \<Rightarrow> (st'', out # outs)))"

text \<open>
  What happens to the component in a session, in any order: an envelope arrives and is
  handled, or React commits the state. \<open>play\<close> gives the state after a list of events.
  The handler awaits the proof of work and the signature verification and touches the
  refs and the blocklist only after the last of them, without a further await; a commit
  that falls into the handling of an envelope is therefore a commit before that envelope.
\<close>

datatype event = Arrival clock inbound | Commit

fun step :: "host \<Rightarrow> session \<Rightarrow> event \<Rightarrow> chat_state \<Rightarrow> chat_state" where
  "step h sess (Arrival clk m) st = fst (onMessage h sess clk m st)"
| "step h sess Commit st = commit st"

definition play :: "host \<Rightarrow> session \<Rightarrow> event list \<Rightarrow> chat_state \<Rightarrow> chat_state" where
  "play h sess evs st = fold (step h sess) evs st"

section \<open>Live-presence surface\<close>

text \<open>
  An entry of \<open>peersRef\<close>. The coordinates are \<open>clamp(Number(parsed.x || 0), 0, 1000)\<close> and
  the same for \<open>y\<close>, two doubles: the entry keeps the fields they are computed from. The
  colour is \<open>hashColor\<close> of the key and is not stored.
\<close>

record peer =
  peer_x_field :: string
  peer_y_field :: string
  peer_nick :: string
  peer_ts :: int

record livegame_state =
  peers :: "string \<rightharpoonup> peer"
  lg_seenMsgId :: "string list"

definition livegame_connected :: livegame_state where
  "livegame_connected = \<lparr>peers = Map.empty, lg_seenMsgId = []\<rparr>"

text \<open>
  \<open>verifyPayload\<close> of this surface: when the capability is absent it answers that the
  signature is valid, with an empty derived address.
\<close>

record lg_verified =
  lv_ok :: bool
  lv_signatureValid :: bool
  lv_derivedAddress :: string
  lv_error :: string

definition verifyPayload_livegame ::
  "host \<Rightarrow> string \<Rightarrow> string \<Rightarrow> string \<Rightarrow> string \<Rightarrow> exn + lg_verified"
where
  "verifyPayload_livegame h payload signatureB64 pubkeyB64 address =
     (case verifyArbitrary h of
        None \<Rightarrow>
          Inr \<lparr>lv_ok = True, lv_signatureValid = True, lv_derivedAddress = [], lv_error = []\<rparr>
      | Some verify \<Rightarrow>
          (case verify payload signatureB64 pubkeyB64 address of
             Inl e \<Rightarrow> Inl e
           | Inr None \<Rightarrow>
               Inr \<lparr>lv_ok = False, lv_signatureValid = False, lv_derivedAddress = [],
                    lv_error = []\<rparr>
           | Inr (Some res) \<Rightarrow>
               Inr \<lparr>lv_ok = res_ok res,
                    lv_signatureValid =
                      (case res_signatureValid res of None \<Rightarrow> res_ok res | Some b \<Rightarrow> b),
                    lv_derivedAddress =
                      trim (if res_derivedAddress res \<noteq> [] then res_derivedAddress res
                            else res_derivedAddr res),
                    lv_error = res_error res\<rparr>))"

text \<open>
  The pruning of the set of seen identities: above 2500 elements, the first 1200 in
  insertion order are left out of the new set.
\<close>

definition prune_seen :: "string list \<Rightarrow> string list" where
  "prune_seen seen = (if length seen > 2500 then drop 1200 seen else seen)"

text \<open>
  The handler of this surface, with the single reading \<open>now\<close> of \<open>nowMs()\<close>. It keeps no
  counters: every early \<open>return\<close> leaves the state as it is.
\<close>

definition onMessage_livegame ::
  "host \<Rightarrow> string \<Rightarrow> int \<Rightarrow> inbound \<Rightarrow> livegame_state \<Rightarrow> livegame_state \<times> attempt list"
where
  "onMessage_livegame h topic now m st =
     (case m_json m of
        None \<Rightarrow> (st, [])
      | Some data \<Rightarrow>
          let payload = env_payload data;
              address = trim (env_address data);
              pubkeyB64 = trim (env_pubkeyB64 data);
              signatureB64 = trim (env_signatureB64 data)
          in
          if payload = [] \<or> address = [] \<or> pubkeyB64 = [] \<or> signatureB64 = [] then (st, [])
          else
            (case decodePayload h livegame_tag payload of
               Inl e \<Rightarrow> (st, [])
             | Inr None \<Rightarrow> (st, [])
             | Inr (Some parsed) \<Rightarrow>
                 if field parsed ''room'' \<noteq> topic then (st, [])
                 else
                   let nonce = trim (field parsed ''nonce'') in
                   if nonce = [] \<or> length nonce > 20 then (st, [])
                   else
                     let unverifiedId = address @ '':'' @ nonce in
                     if unverifiedId \<in> set (lg_seenMsgId st) then (st, [])
                     else
                       let st1 = st\<lparr>lg_seenMsgId := prune_seen (lg_seenMsgId st) @ [unverifiedId]\<rparr>;
                           tried = [SigAttempt payload signatureB64 pubkeyB64 address]
                       in
                       (case verifyPayload_livegame h payload signatureB64 pubkeyB64 address of
                          Inl e \<Rightarrow> (st1, tried)
                        | Inr v \<Rightarrow>
                            if \<not> lv_signatureValid v then (st1, tried)
                            else
                              let canonicalAddr =
                                    (if lv_derivedAddress v \<noteq> [] then lv_derivedAddress v
                                     else address);
                                  t = field parsed ''type'';
                                  given = take 22 (field parsed ''nick'')
                              in
                              if t = ''join'' then
                                (st1\<lparr>peers := (peers st1)(canonicalAddr \<mapsto>
                                    \<lparr>peer_x_field = field parsed ''x'',
                                     peer_y_field = field parsed ''y'',
                                     peer_nick = (if given \<noteq> [] then given else ''player''),
                                     peer_ts = now\<rparr>)\<rparr>, tried)
                              else if t = ''state'' then
                                (let known = (case peers st1 canonicalAddr of
                                                None \<Rightarrow> [] | Some p \<Rightarrow> peer_nick p);
                                     nn = (if given \<noteq> [] then given
                                           else if known \<noteq> [] then known else ''player'')
                                 in
                                 (st1\<lparr>peers := (peers st1)(canonicalAddr \<mapsto>
                                     \<lparr>peer_x_field = field parsed ''x'',
                                      peer_y_field = field parsed ''y'',
                                      peer_nick = nn, peer_ts = now\<rparr>)\<rparr>, tried))
                              else (st1, tried))))"

fun run_livegame ::
  "host \<Rightarrow> string \<Rightarrow> (int \<times> inbound) list \<Rightarrow> livegame_state \<Rightarrow> livegame_state"
where
  "run_livegame h topic [] st = st"
| "run_livegame h topic (e # es) st =
     run_livegame h topic es (fst (onMessage_livegame h topic (fst e) (snd e) st))"

section \<open>A test double for the host\<close>

text \<open>
  A deterministic host for running the model on concrete envelopes, without keys or a hash
  function.
  \<^item> The comparison is a collation in the manner of \<open>localeCompare\<close> on ASCII: letters are
    compared without regard to case first, and lower case comes before upper case among
    strings that differ in case only.
  \<^item> The percent codec is the one of \<open>encodeURIComponent\<close> and \<open>decodeURIComponent\<close> on the
    8-bit alphabet (a character from 128 on is a two-byte UTF-8 sequence); an escape
    sequence for a character beyond the alphabet is answered with \<open>None\<close>.
  \<^item> The text encoder answers with no bytes and the digest has twelve leading zero bits for
    every input: the proof-of-work gate of this host lets every payload through.
  \<^item> A signature is valid when it is \<open>sig-\<close> followed by the public key, and the address
    derived from a public key is \<open>addr-\<close> followed by the key.
\<close>

definition fold_case :: "char \<Rightarrow> char" where
  "fold_case c =
     (case map_of (zip ''ABCDEFGHIJKLMNOPQRSTUVWXYZ'' ''abcdefghijklmnopqrstuvwxyz'') c of
        None \<Rightarrow> c
      | Some l \<Rightarrow> l)"

definition is_upper :: "char \<Rightarrow> bool" where
  "is_upper c \<longleftrightarrow> c \<in> set ''ABCDEFGHIJKLMNOPQRSTUVWXYZ''"

definition test_compare :: "string \<Rightarrow> string \<Rightarrow> int" where
  "test_compare a b =
     (let ka = (map fold_case a, map is_upper a); kb = (map fold_case b, map is_upper b) in
      if fst ka < fst kb then - 1 else if fst kb < fst ka then 1
      else if snd ka < snd kb then - 1 else if snd kb < snd ka then 1 else 0)"

definition unreserved :: "char \<Rightarrow> bool" where
  "unreserved c \<longleftrightarrow>
     c \<in> set (''ABCDEFGHIJKLMNOPQRSTUVWXYZ'' @ ''abcdefghijklmnopqrstuvwxyz'' @
              ''0123456789'' @ ''-_.!~*'()'')"

definition hex_digit :: "nat \<Rightarrow> char" where
  "hex_digit n = ''0123456789ABCDEF'' ! (n mod 16)"

definition percent :: "nat \<Rightarrow> string" where
  "percent n = [CHR ''%'', hex_digit (n div 16), hex_digit n]"

definition encode_char :: "char \<Rightarrow> string" where
  "encode_char c =
     (let n = (of_char c :: nat) in
      if unreserved c then [c]
      else if n < 128 then percent n
      else percent (192 + n div 64) @ percent (128 + n mod 64))"

definition test_encode :: "string \<Rightarrow> string option" where
  "test_encode s = Some (concat (map encode_char s))"

definition hex_value :: "char \<Rightarrow> nat option" where
  "hex_value c =
     map_of (zip ''0123456789ABCDEF'' [0..<16] @ zip ''abcdef'' [10..<16]) c"

text \<open>The byte written as the two hexadecimal digits \<open>a\<close>, \<open>b\<close>.\<close>

definition hex_byte :: "char \<Rightarrow> char \<Rightarrow> nat option" where
  "hex_byte a b =
     (case (hex_value a, hex_value b) of
        (Some x, Some y) \<Rightarrow> Some (16 * x + y)
      | _ \<Rightarrow> None)"

fun test_decode :: "string \<Rightarrow> string option" where
  "test_decode [] = Some []"
| "test_decode (c # cs) =
     (if c \<noteq> CHR ''%'' then map_option ((#) c) (test_decode cs)
      else
        (case cs of
           a # b # rest \<Rightarrow>
             (case hex_byte a b of
                None \<Rightarrow> None
              | Some n \<Rightarrow>
                  if n < 128 then map_option ((#) (char_of n)) (test_decode rest)
                  else if n = 194 \<or> n = 195 then
                    (case rest of
                       p # a' # b' # rest' \<Rightarrow>
                         (case hex_byte a' b' of
                            None \<Rightarrow> None
                          | Some k \<Rightarrow>
                              if p = CHR ''%'' \<and> 128 \<le> k \<and> k < 192
                              then map_option ((#) (char_of ((n - 192) * 64 + (k - 128))))
                                     (test_decode rest')
                              else None)
                     | _ \<Rightarrow> None)
                  else None)
         | _ \<Rightarrow> None))"

definition test_digest :: "string \<Rightarrow> 8 word list \<Rightarrow> 8 word list" where
  "test_digest algorithm bytes = [0, 8]"

definition test_verify :: "string \<Rightarrow> string \<Rightarrow> string \<Rightarrow> string \<Rightarrow> exn + verify_res option" where
  "test_verify payload signatureB64 pubkeyB64 address =
     (let valid = (signatureB64 = ''sig-'' @ pubkeyB64); derived = ''addr-'' @ pubkeyB64 in
      Inr (Some \<lparr>res_ok = valid \<and> address = derived,
                 res_signatureValid = Some valid,
                 res_addressMatches = Some (address = derived),
                 res_derivedAddress = (if valid then derived else []),
                 res_derivedAddr = [],
                 res_error = (if valid then [] else ''signature mismatch'')\<rparr>))"

fun digits_value :: "nat \<Rightarrow> string \<Rightarrow> nat option" where
  "digits_value acc [] = Some acc"
| "digits_value acc (c # cs) =
     (let n = (of_char c :: nat) in
      if 48 \<le> n \<and> n \<le> 57 then digits_value (10 * acc + (n - 48)) cs else None)"

definition test_toNumber :: "string \<Rightarrow> int option" where
  "test_toNumber s = (if s = [] then Some 0 else map_option int (digits_value 0 s))"

definition test_host :: host where
  "test_host =
     \<lparr>localeCompare = test_compare,
      encodeURIComponent = test_encode,
      decodeURIComponent = test_decode,
      textEncode = (\<lambda>s. []),
      subtleDigest = Some test_digest,
      verifyArbitrary = Some test_verify,
      toNumber = test_toNumber\<rparr>"

text \<open>The same host without the verification capability.\<close>

definition test_host_unverified :: host where
  "test_host_unverified = test_host\<lparr>verifyArbitrary := None\<rparr>"

section \<open>Notions used in the statements\<close>

text \<open>
  The comparison orders the keys \<open>K\<close>: any two are comparable, two different keys never
  compare as equal, and the comparison is transitive.
\<close>

definition orders_keys :: "(string \<Rightarrow> string \<Rightarrow> int) \<Rightarrow> string set \<Rightarrow> bool" where
  "orders_keys c K \<longleftrightarrow>
     (\<forall>x\<in>K. \<forall>y\<in>K. c x y \<le> 0 \<or> c y x \<le> 0) \<and>
     (\<forall>x\<in>K. \<forall>y\<in>K. c x y \<le> 0 \<and> c y x \<le> 0 \<longrightarrow> x = y) \<and>
     (\<forall>x\<in>K. \<forall>y\<in>K. \<forall>z\<in>K. c x y \<le> 0 \<and> c y z \<le> 0 \<longrightarrow> c x z \<le> 0)"

text \<open>
  The host's percent codec carries the value \<open>v\<close>: encoding succeeds, leaves no separator
  in the result, and decoding the result gives \<open>v\<close> back.
\<close>

definition value_survives :: "host \<Rightarrow> string \<Rightarrow> bool" where
  "value_survives h v \<longleftrightarrow>
     (\<exists>e. encodeURIComponent h v = Some e \<and> CHR ''|'' \<notin> set e \<and>
          decodeURIComponent h e = Some v)"

text \<open>
  A key that the payload format can carry: keys are written as they are, so a key must be
  non-empty and free of both separators, and it must not be one of the two names that
  \<open>decodePayload\<close> treats specially.
\<close>

definition plain_key :: "string \<Rightarrow> bool" where
  "plain_key k \<longleftrightarrow>
     k \<noteq> [] \<and> CHR ''='' \<notin> set k \<and> CHR ''|'' \<notin> set k \<and> k \<noteq> ''type'' \<and> k \<noteq> ''__proto__''"

text \<open>The segment that \<open>encodePayload\<close> writes for one entry.\<close>

definition part_of :: "host \<Rightarrow> string \<times> string \<Rightarrow> string" where
  "part_of h e = fst e @ ''='' @ the (encodeURIComponent h (snd e))"

text \<open>
  What the first part of the handler finds in an envelope that it lets through: the
  decoded object, the canonical address and the nonce.
\<close>

definition parsed_of :: "host \<Rightarrow> session \<Rightarrow> inbound \<Rightarrow> (string \<rightharpoonup> string)" where
  "parsed_of h sess m =
     (case fst (identify h sess m) of Inr (parsed, canonicalAddr, nonce) \<Rightarrow> parsed
      | Inl r \<Rightarrow> Map.empty)"

definition sender_of :: "host \<Rightarrow> session \<Rightarrow> inbound \<Rightarrow> string option" where
  "sender_of h sess m =
     (case fst (identify h sess m) of Inr (parsed, canonicalAddr, nonce) \<Rightarrow> Some canonicalAddr
      | Inl r \<Rightarrow> None)"

definition nonce_in :: "host \<Rightarrow> session \<Rightarrow> inbound \<Rightarrow> string option" where
  "nonce_in h sess m =
     (case fst (identify h sess m) of Inr (parsed, canonicalAddr, nonce) \<Rightarrow> Some nonce
      | Inl r \<Rightarrow> None)"

text \<open>What the stores hold for one address.\<close>

definition nonces_of :: "chat_state \<Rightarrow> string \<Rightarrow> string list" where
  "nonces_of st a = (case recentNonces st a of None \<Rightarrow> [] | Some ns \<Rightarrow> ns)"

definition window_of :: "chat_state \<Rightarrow> string \<Rightarrow> int list" where
  "window_of st a = (case spamWindow st a of None \<Rightarrow> [] | Some ts \<Rightarrow> ts)"

definition last_of :: "chat_state \<Rightarrow> string \<Rightarrow> int" where
  "last_of st a = (case lastAcceptedAt st a of None \<Rightarrow> 0 | Some t \<Rightarrow> t)"

text \<open>The window of the burst detector after one more reading.\<close>

definition next_window :: "int \<Rightarrow> int list \<Rightarrow> int list" where
  "next_window now w = filter (\<lambda>t. now - t < AUTO_BLOCK_WINDOW_MS) w @ [now]"

text \<open>The state with the arrival counted, as the second part of the handler finds it.\<close>

definition counted :: "chat_state \<Rightarrow> chat_state" where
  "counted st = st\<lparr>rxStats := (rxStats st)\<lparr>total := total (rxStats st) + 1\<rparr>\<rparr>"

text \<open>
  The state in which an envelope that is new, not blocked and not a replay reaches the burst
  detector.
\<close>

definition noted :: "string \<Rightarrow> string \<Rightarrow> string \<Rightarrow> chat_state \<Rightarrow> chat_state" where
  "noted a n nick st =
     (let st2 = st\<lparr>seenMsgId := seenMsgId st @ [a @ '':'' @ n],
                   recentNonces := (recentNonces st)(a \<mapsto>
                     (if length (nonces_of st a) \<ge> 24
                      then drop (length (nonces_of st a) - 20) (nonces_of st a)
                      else nonces_of st a) @ [n])\<rparr>
      in if nick \<noteq> [] then updateName a nick st2 else st2)"

text \<open>
  What the handler does with an envelope that reaches the burst detector below the
  threshold: the throttle, and then the validation by type.
\<close>

definition through :: "host \<Rightarrow> session \<Rightarrow> clock \<Rightarrow> inbound \<Rightarrow> string \<Rightarrow> string \<Rightarrow> chat_state \<Rightarrow> chat_state \<times> outcome" where
  "through h sess clk m a n st =
     (let p = parsed_of h sess m;
          st3 = noted a n (take 22 (trim (field p ''nick''))) (counted st);
          st4 = st3\<lparr>spamWindow := (spamWindow st3)(a \<mapsto> next_window (now_spam clk) (window_of st a))\<rparr>
      in if now_rate clk - last_of st a < 1000 then drop_with ''rate_limited'' st4
         else deliver h clk p a (a @ '':'' @ n)
                (st4\<lparr>lastAcceptedAt := (lastAcceptedAt st3)(a \<mapsto> now_rate clk)\<rparr>))"

text \<open>The outcome of the validation by type, which depends on the decoded object only.\<close>

definition verdict :: "(string \<rightharpoonup> string) \<Rightarrow> outcome" where
  "verdict p =
     (if field p ''type'' = ''profile'' then Accepted
      else if field p ''type'' \<noteq> ''msg'' then Dropped ''unknown_type''
      else if trim (field p ''text'') = [] then Dropped ''empty_text''
      else if length (trim (field p ''text'')) > 500 then Dropped ''text_too_long''
      else Accepted)"

text \<open>
  The message identity of an arrival that the first part of the handler lets through, and
  the identities of a list of events, in order.
\<close>

fun ident_of :: "host \<Rightarrow> session \<Rightarrow> event \<Rightarrow> string option" where
  "ident_of h sess (Arrival clk m) =
     (case fst (identify h sess m) of
        Inr (parsed, canonicalAddr, nonce) \<Rightarrow> Some (canonicalAddr @ '':'' @ nonce)
      | Inl r \<Rightarrow> None)"
| "ident_of h sess Commit = None"

fun ids_in :: "host \<Rightarrow> session \<Rightarrow> event list \<Rightarrow> string list" where
  "ids_in h sess [] = []"
| "ids_in h sess (e # es) =
     (case ident_of h sess e of None \<Rightarrow> ids_in h sess es | Some i \<Rightarrow> i # ids_in h sess es)"

text \<open>The address that an event comes from, if it is an arrival that is let through.\<close>

fun sender_at :: "host \<Rightarrow> session \<Rightarrow> event \<Rightarrow> string option" where
  "sender_at h sess (Arrival clk m) = sender_of h sess m"
| "sender_at h sess Commit = None"

text \<open>
  The readings of the clock that the burst detector takes for the arrivals from the
  address \<open>a\<close>, in order.
\<close>

fun readings :: "host \<Rightarrow> session \<Rightarrow> string \<Rightarrow> event list \<Rightarrow> int list" where
  "readings h sess a [] = []"
| "readings h sess a (Arrival clk m # es) =
     (if sender_of h sess m = Some a then now_spam clk # readings h sess a es
      else readings h sess a es)"
| "readings h sess a (Commit # es) = readings h sess a es"

text \<open>
  The window of the burst detector after further readings, and whether the detector stays
  at or below its threshold through them: \<open>w\<close> is the window before the first of them.
\<close>

fun window_through :: "int list \<Rightarrow> int list \<Rightarrow> int list" where
  "window_through w [] = w"
| "window_through w (t # ts) = window_through (next_window t w) ts"

fun quiet :: "int list \<Rightarrow> int list \<Rightarrow> bool" where
  "quiet w [] = True"
| "quiet w (t # ts) =
     (length (next_window t w) \<le> AUTO_BLOCK_MAX_MESSAGES \<and> quiet (next_window t w) ts)"

text \<open>Readings that lie in one window of the burst detector.\<close>

definition close_together :: "int list \<Rightarrow> bool" where
  "close_together ts \<longleftrightarrow> (\<forall>t'\<in>set ts. \<forall>t\<in>set ts. t' - t < AUTO_BLOCK_WINDOW_MS)"

text \<open>
  No arrival from the address \<open>a\<close> carries a message identity that an earlier arrival has
  carried: \<open>earlier\<close> are the identities of the arrivals before the list.
\<close>

fun unrepeated :: "host \<Rightarrow> session \<Rightarrow> string \<Rightarrow> string list \<Rightarrow> event list \<Rightarrow> bool" where
  "unrepeated h sess a earlier [] = True"
| "unrepeated h sess a earlier (e # es) =
     ((sender_at h sess e = Some a \<longrightarrow> ident_of h sess e \<notin> set (map Some earlier)) \<and>
      unrepeated h sess a (earlier @ ids_in h sess [e]) es)"

section \<open>Concrete envelopes\<close>

text \<open>
  Envelopes for the test double: a text message (or another type) on the topic of the
  lobby, signed with the key \<open>k\<close>, with the nonce \<open>n\<close>. A token is a non-empty string
  without separator, escape or white space.
\<close>

definition demo_topic :: string where
  "demo_topic = ''lumen/pubsub_chat/v1/lobby''"

definition demo_session :: session where
  "demo_session = \<lparr>sess_topic = demo_topic, sess_status_address = [], sess_nameByAddr = Map.empty\<rparr>"

definition demo_envelope :: "string \<Rightarrow> string \<Rightarrow> string \<Rightarrow> string \<Rightarrow> inbound" where
  "demo_envelope k type n txt =
     \<lparr>m_json = Some
        \<lparr>env_payload = ''pubsub_chat|v1|'' @ type @ ''|nonce='' @ n @
                        ''|room=lumen/pubsub_chat/v1/lobby|text='' @ txt,
         env_address = ''addr-'' @ k, env_pubkeyB64 = k, env_signatureB64 = ''sig-'' @ k\<rparr>,
      m_text = []\<rparr>"

definition token :: "string \<Rightarrow> bool" where
  "token s \<longleftrightarrow> s \<noteq> [] \<and> (\<forall>c\<in>set s. c \<noteq> CHR ''|'' \<and> c \<noteq> CHR ''%'' \<and> \<not> is_space c)"

definition at :: "int \<Rightarrow> clock" where
  "at t = \<lparr>now_spam = t, now_block = t, now_rate = t, now_push = t\<rparr>"

text \<open>
  A burst: the envelope number \<open>i\<close> comes 100 ms after the one before it, with a nonce of
  its own.
\<close>

definition burst_envelope :: "nat \<Rightarrow> clock \<times> inbound" where
  "burst_envelope i =
     (at (1700000000000 + 100 * int i),
      demo_envelope ''K1'' ''msg'' (replicate (Suc i) (CHR ''x'')) ''hello'')"

text \<open>
  The burst as events, without a commit in between, and the message identity of its
  envelope number \<open>i\<close>.
\<close>

definition burst_arrival :: "nat \<Rightarrow> event" where
  "burst_arrival i = Arrival (fst (burst_envelope i)) (snd (burst_envelope i))"

definition burst :: "nat \<Rightarrow> event list" where
  "burst n = map burst_arrival [0..<n]"

definition burst_id :: "nat \<Rightarrow> string" where
  "burst_id i = ''addr-K1:'' @ replicate (Suc i) (CHR ''x'')"

text \<open>
  Two more arrivals: an envelope of the same sender ten seconds before the burst, and an
  envelope of another sender in the middle of it.
\<close>

definition early :: event where
  "early = Arrival (at 1699999990000) (demo_envelope ''K1'' ''msg'' ''n0'' ''hello'')"

definition bystander :: event where
  "bystander = Arrival (at 1700000000950) (demo_envelope ''K2'' ''msg'' ''n1'' ''hello'')"

section \<open>Notions used in the statements on the live-presence surface\<close>

text \<open>
  An envelope with all four fields present after trimming: the gate of both handlers that
  comes before the payload is decoded.
\<close>

definition well_formed :: "envelope \<Rightarrow> bool" where
  "well_formed data \<longleftrightarrow>
     env_payload data \<noteq> [] \<and> trim (env_address data) \<noteq> [] \<and>
     trim (env_pubkeyB64 data) \<noteq> [] \<and> trim (env_signatureB64 data) \<noteq> []"

text \<open>
  The gates of the live-presence handler that an envelope passes before its identity is
  looked up: the fields, the decoding, the room and the nonce.
\<close>

definition livegame_gates :: "host \<Rightarrow> string \<Rightarrow> envelope \<Rightarrow> (string \<rightharpoonup> string) \<Rightarrow> bool" where
  "livegame_gates h topic data parsed \<longleftrightarrow>
     well_formed data \<and>
     decodePayload h livegame_tag (env_payload data) = Inr (Some parsed) \<and>
     field parsed ''room'' = topic \<and>
     trim (field parsed ''nonce'') \<noteq> [] \<and> length (trim (field parsed ''nonce'')) \<le> 20"

text \<open>The identity that the live-presence handler builds: \<open>`${address}:${nonce}`\<close>.\<close>

definition unverifiedId :: "envelope \<Rightarrow> (string \<rightharpoonup> string) \<Rightarrow> string" where
  "unverifiedId data parsed = trim (env_address data) @ '':'' @ trim (field parsed ''nonce'')"

text \<open>
  Valid chat envelopes of different senders: the \<open>i\<close>-th is signed with a key of
  \<open>i + 1\<close> letters and arrives \<open>i\<close> milliseconds after the first.
\<close>

definition crowd_envelope :: "nat \<Rightarrow> clock \<times> inbound" where
  "crowd_envelope i =
     (at (1700000000000 + int i),
      demo_envelope (replicate (Suc i) (CHR ''k'')) ''msg'' ''n1'' ''hello'')"

text \<open>
  A \<open>join\<close> envelope of the live-presence surface with a claimed address, a key and a
  signature.
\<close>

definition livegame_topic :: string where
  "livegame_topic = ''lumen/pubsub_livegame/v1/lobby''"

definition livegame_envelope :: "string \<Rightarrow> string \<Rightarrow> string \<Rightarrow> inbound" where
  "livegame_envelope claimed k sg =
     \<lparr>m_json = Some
        \<lparr>env_payload =
           ''pubsub_livegame|v1|join|nick=eve|nonce=n1|room=lumen/pubsub_livegame/v1/lobby'',
         env_address = claimed, env_pubkeyB64 = k, env_signatureB64 = sg\<rparr>,
      m_text = []\<rparr>"

section \<open>Properties of the proof-of-work gate\<close>

lemma scan_byte_count:
  "scan_byte b n bits = bits + length (takeWhile Not (map (bit b) (rev [0..<n])))"
  by (induction n arbitrary: bits) (simp_all add: and_exp_eq_0_iff_not_bit)

lemma byte_bits_zero: "byte_bits 0 = replicate 8 False"
  by (simp add: byte_bits_def upt_rec numeral_nat)

lemma byte_bits_nonzero: "b \<noteq> 0 \<Longrightarrow> True \<in> set (byte_bits b)"
proof -
  assume "b \<noteq> 0"
  then obtain i where "bit b i" by (auto simp: bit_eq_iff)
  moreover from this have "i < 8" using bit_imp_le_length [of b i] by simp
  ultimately show ?thesis by (auto simp: byte_bits_def)
qed

lemma leadingZeroBits_from_count:
  "leadingZeroBits_from bits bytes = bits + leading_zero_bit_count bytes"
proof (induction bytes arbitrary: bits)
  case Nil
  show ?case by (simp add: leading_zero_bit_count_def)
next
  case (Cons b bs)
  show ?case
  proof (cases "b = 0")
    case True
    have "takeWhile Not (replicate 8 False @ concat (map byte_bits bs)) =
            replicate 8 False @ takeWhile Not (concat (map byte_bits bs))"
      by (rule takeWhile_append2) simp
    with True show ?thesis
      using Cons.IH [of "bits + 8"]
      by (simp add: leading_zero_bit_count_def byte_bits_zero)
  next
    case False
    then have "takeWhile Not (byte_bits b @ concat (map byte_bits bs)) =
                 takeWhile Not (byte_bits b)"
      using byte_bits_nonzero [OF False] by (intro takeWhile_append1 [where x = True]) simp_all
    with False show ?thesis
      by (simp add: leading_zero_bit_count_def scan_byte_count byte_bits_def)
  qed
qed

lemma leadingZeroBits_test_digest: "leadingZeroBits [0, 8] = 12"
  by code_simp

text \<open>
  \<^bold>\<open>C4\<close>. Proof-of-work verification accepts a payload for a number of difficulty bits
  exactly when the count of leading zero bits of the SHA-256 digest of the payload's UTF-8
  bytes is at least that number; the leading zero bits are counted from the most
  significant bit of the first byte of the digest, a zero byte counts for eight, and the
  count goes on into the next byte.
\<close>

theorem pow_accepts_iff_enough_leading_zero_bits:
  assumes "subtleDigest h = Some digest"
  shows "hasValidPow h payload bits =
           Inr (bits \<le> int (leading_zero_bit_count (digest ''SHA-256'' (textEncode h payload))))"
  using assms
  by (simp add: hasValidPow_def sha256Utf8_def leadingZeroBits_def leadingZeroBits_from_count)

theorem pow_accepts_iff_enough_leading_zero_bits_witness:
  "subtleDigest test_host = Some test_digest \<and>
   hasValidPow test_host ''pubsub_chat|v1|msg|nonce=ab'' 12 = Inr True \<and>
   hasValidPow test_host ''pubsub_chat|v1|msg|nonce=ab'' 13 = Inr False"
proof -
  have d: "subtleDigest test_host = Some test_digest" by (simp add: test_host_def)
  have "leading_zero_bit_count [0, 8] = 12"
    using leadingZeroBits_from_count [of 0 "[0, 8]"] leadingZeroBits_test_digest
    by (simp add: leadingZeroBits_def)
  then show ?thesis
    using d pow_accepts_iff_enough_leading_zero_bits [OF d, of "''pubsub_chat|v1|msg|nonce=ab''" 12]
      pow_accepts_iff_enough_leading_zero_bits [OF d, of "''pubsub_chat|v1|msg|nonce=ab''" 13]
    by (simp add: test_digest_def)
qed

section \<open>Properties of the payload codec\<close>

subsection \<open>Splitting and joining\<close>

lemma split_nonempty: "split d s \<noteq> []"
  by (induction s) (auto split: list.splits)

lemma split_no_sep: "d \<notin> set a \<Longrightarrow> split d a = [a]"
  by (induction a) auto

lemma split_append: "d \<notin> set a \<Longrightarrow> split d (a @ d # rest) = a # split d rest"
  by (induction a) auto

lemma split_join:
  "ps \<noteq> [] \<Longrightarrow> \<forall>p\<in>set ps. d \<notin> set p \<Longrightarrow> split d (join [d] ps) = ps"
proof (induction ps)
  case Nil
  then show ?case by simp
next
  case (Cons p ps)
  show ?case
  proof (cases ps)
    case Nil
    with Cons.prems show ?thesis by (simp add: split_no_sep)
  next
    case (Cons q qs)
    with Cons.IH Cons.prems show ?thesis by (simp add: split_append)
  qed
qed

lemma split_payload:
  assumes "CHR ''|'' \<notin> set tag" "CHR ''|'' \<notin> set t"
  shows "split (CHR ''|'') (tag @ ''|v1|'' @ t @ ''|'' @ body) =
           tag # ''v1'' # t # split (CHR ''|'') body"
proof -
  have "split (CHR ''|'') (tag @ CHR ''|'' # (''v1'' @ CHR ''|'' # (t @ CHR ''|'' # body))) =
        tag # split (CHR ''|'') (''v1'' @ CHR ''|'' # (t @ CHR ''|'' # body))"
    using assms(1) by (rule split_append)
  also have "split (CHR ''|'') (''v1'' @ CHR ''|'' # (t @ CHR ''|'' # body)) =
        ''v1'' # split (CHR ''|'') (t @ CHR ''|'' # body)"
    by (rule split_append) simp
  also have "split (CHR ''|'') (t @ CHR ''|'' # body) = t # split (CHR ''|'') body"
    using assms(2) by (rule split_append)
  finally show ?thesis by simp
qed

lemma takeWhile_upto_sep: "d \<notin> set k \<Longrightarrow> takeWhile (\<lambda>c. c \<noteq> d) (k @ d # rest) = k"
  by (induction k) auto

subsection \<open>The sort\<close>

lemma set_insert_entry: "set (insert_entry c a es) = insert a (set es)"
  by (induction es) auto

lemma set_sort_entries: "set (sort_entries c es) = set es"
  by (induction es) (auto simp: sort_entries_def set_insert_entry)

lemma length_insert_entry: "length (insert_entry c a es) = Suc (length es)"
  by (induction es) auto

lemma length_sort_entries: "length (sort_entries c es) = length es"
  by (induction es) (auto simp: sort_entries_def length_insert_entry)

lemma distinct_keys_sort_entries:
  assumes "distinct (map fst es)"
  shows "distinct (map fst (sort_entries c es))"
proof -
  have "distinct es" using assms by (rule distinct_map [THEN iffD1, THEN conjunct1])
  then have "card (set es) = length es" by (rule distinct_card)
  then have "card (set (sort_entries c es)) = length (sort_entries c es)"
    by (simp add: set_sort_entries length_sort_entries)
  then have d: "distinct (sort_entries c es)" by (rule card_distinct)
  have "inj_on fst (set es)" using assms by (simp add: distinct_map)
  with d show ?thesis by (simp add: distinct_map set_sort_entries)
qed

lemma orders_keys_total:
  "orders_keys c K \<Longrightarrow> x \<in> K \<Longrightarrow> y \<in> K \<Longrightarrow> \<not> c x y \<le> 0 \<Longrightarrow> c y x \<le> 0"
  unfolding orders_keys_def by blast

lemma orders_keys_trans:
  "orders_keys c K \<Longrightarrow> x \<in> K \<Longrightarrow> y \<in> K \<Longrightarrow> z \<in> K \<Longrightarrow> c x y \<le> 0 \<Longrightarrow> c y z \<le> 0
     \<Longrightarrow> c x z \<le> 0"
  unfolding orders_keys_def by blast

lemma orders_keys_antisym:
  "orders_keys c K \<Longrightarrow> x \<in> K \<Longrightarrow> y \<in> K \<Longrightarrow> c x y \<le> 0 \<Longrightarrow> c y x \<le> 0 \<Longrightarrow> x = y"
  unfolding orders_keys_def by blast

lemma sorted_insert_entry:
  assumes "sorted_wrt (\<lambda>x y. c (fst x) (fst y) \<le> 0) es"
    and ord: "orders_keys c K"
    and inK: "fst a \<in> K" "fst ` set es \<subseteq> K"
  shows "sorted_wrt (\<lambda>x y. c (fst x) (fst y) \<le> 0) (insert_entry c a es)"
  using assms(1) inK
proof (induction es)
  case Nil
  then show ?case by simp
next
  case (Cons b bs)
  from Cons.prems have bK: "fst b \<in> K" and bsK: "fst ` set bs \<subseteq> K" by auto
  show ?case
  proof (cases "c (fst a) (fst b) \<le> 0")
    case True
    have "c (fst a) (fst y) \<le> 0" if y: "y \<in> set bs" for y
    proof -
      from Cons.prems(1) y have "c (fst b) (fst y) \<le> 0" by simp
      moreover from y bsK have "fst y \<in> K" by auto
      ultimately show ?thesis
        using orders_keys_trans [OF ord \<open>fst a \<in> K\<close> bK _ True] by blast
    qed
    with True Cons.prems(1) show ?thesis by simp
  next
    case False
    then have ba: "c (fst b) (fst a) \<le> 0"
      using orders_keys_total [OF ord \<open>fst a \<in> K\<close> bK] by blast
    have "sorted_wrt (\<lambda>x y. c (fst x) (fst y) \<le> 0) (insert_entry c a bs)"
      using Cons.prems(1) \<open>fst a \<in> K\<close> bsK by (intro Cons.IH) simp_all
    with False ba Cons.prems(1) show ?thesis by (simp add: set_insert_entry)
  qed
qed

lemma sorted_sort_entries:
  assumes ord: "orders_keys c K" and inK: "fst ` set es \<subseteq> K"
  shows "sorted_wrt (\<lambda>x y. c (fst x) (fst y) \<le> 0) (sort_entries c es)"
  using inK
proof (induction es)
  case Nil
  then show ?case by (simp add: sort_entries_def)
next
  case (Cons a es)
  then have IH: "sorted_wrt (\<lambda>x y. c (fst x) (fst y) \<le> 0) (sort_entries c es)"
    and aK: "fst a \<in> K" and esK: "fst ` set es \<subseteq> K" by simp_all
  have "sort_entries c (a # es) = insert_entry c a (sort_entries c es)"
    by (simp add: sort_entries_def)
  moreover have
    "sorted_wrt (\<lambda>x y. c (fst x) (fst y) \<le> 0) (insert_entry c a (sort_entries c es))"
    using esK by (intro sorted_insert_entry [where K = K] IH ord aK) (simp add: set_sort_entries)
  ultimately show ?case by simp
qed

lemma sorted_unique:
  assumes "sorted_wrt R xs" "sorted_wrt R ys" "set xs = set ys" "distinct xs" "distinct ys"
    and anti: "\<And>x y. x \<in> set xs \<Longrightarrow> y \<in> set xs \<Longrightarrow> R x y \<Longrightarrow> R y x \<Longrightarrow> x = y"
  shows "xs = ys"
  using assms
proof (induction xs arbitrary: ys)
  case Nil
  then show ?case by simp
next
  case (Cons x xs)
  then obtain y ys' where ys: "ys = y # ys'" by (cases ys) auto
  have xy: "x = y"
  proof (rule ccontr)
    assume ne: "x \<noteq> y"
    from Cons.prems(3) ys ne have x_in: "x \<in> set ys'" and y_in: "y \<in> set xs" by auto
    from Cons.prems(2) ys x_in have "R y x" by simp
    moreover from Cons.prems(1) y_in have "R x y" by simp
    ultimately have "x = y" using Cons.prems(6) [of x y] y_in by simp
    with ne show False by simp
  qed
  have sets: "set xs = set ys'"
  proof -
    from Cons.prems(4) have "x \<notin> set xs" by simp
    moreover from Cons.prems(5) ys xy have "x \<notin> set ys'" by simp
    moreover from Cons.prems(3) ys xy have "insert x (set xs) = insert x (set ys')" by simp
    ultimately show ?thesis by (metis insert_ident)
  qed
  have "xs = ys'"
  proof (rule Cons.IH)
    show "sorted_wrt R xs" using Cons.prems(1) by simp
    show "sorted_wrt R ys'" using Cons.prems(2) ys by simp
    show "set xs = set ys'" by (rule sets)
    show "distinct xs" using Cons.prems(4) by simp
    show "distinct ys'" using Cons.prems(5) ys by simp
    show "\<And>a b. a \<in> set xs \<Longrightarrow> b \<in> set xs \<Longrightarrow> R a b \<Longrightarrow> R b a \<Longrightarrow> a = b"
      using Cons.prems(6) by simp
  qed
  with xy ys show ?case by simp
qed

lemma sort_entries_unique:
  assumes ord: "orders_keys c (fst ` set f)"
    and df: "distinct (map fst f)" and dg: "distinct (map fst g)" and sets: "set g = set f"
  shows "sort_entries c g = sort_entries c f"
proof (rule sorted_unique [where R = "\<lambda>x y. c (fst x) (fst y) \<le> 0"])
  show "sorted_wrt (\<lambda>x y. c (fst x) (fst y) \<le> 0) (sort_entries c g)"
    using ord by (rule sorted_sort_entries) (simp add: sets)
  show "sorted_wrt (\<lambda>x y. c (fst x) (fst y) \<le> 0) (sort_entries c f)"
    using ord by (rule sorted_sort_entries) simp
  show "set (sort_entries c g) = set (sort_entries c f)"
    by (simp add: set_sort_entries sets)
  show "distinct (sort_entries c g)"
    using distinct_keys_sort_entries [OF dg, of c] by (simp add: distinct_map)
  show "distinct (sort_entries c f)"
    using distinct_keys_sort_entries [OF df, of c] by (simp add: distinct_map)
  fix x y
  assume x: "x \<in> set (sort_entries c g)" and y: "y \<in> set (sort_entries c g)"
    and le: "c (fst x) (fst y) \<le> 0" "c (fst y) (fst x) \<le> 0"
  from x y have xf: "x \<in> set f" and yf: "y \<in> set f" by (simp_all add: set_sort_entries sets)
  then have "fst x = fst y" using orders_keys_antisym [OF ord _ _ le] by blast
  moreover from df have "inj_on fst (set f)" by (simp add: distinct_map)
  ultimately show "x = y" using xf yf by (simp add: inj_on_def)
qed

subsection \<open>Decoding what was encoded\<close>

lemma those_map_Some:
  "(\<And>x. x \<in> set xs \<Longrightarrow> f x = Some (g x)) \<Longrightarrow> those (map f xs) = Some (map g xs)"
  by (induction xs) simp_all

lemma decode_parts_encoded:
  assumes "\<And>e. e \<in> set es \<Longrightarrow> plain_key (fst e) \<and> value_survives h (snd e)"
  shows "decode_parts h (map (part_of h) es) obj = Some (obj ++ map_of (rev es))"
  using assms
proof (induction es arbitrary: obj)
  case Nil
  then show ?case by simp
next
  case (Cons e es)
  obtain k v where e: "e = (k, v)" by (cases e)
  from Cons.prems [of e] e have key: "plain_key k" and val: "value_survives h v" by simp_all
  from val obtain enc where enc: "encodeURIComponent h v = Some enc"
    "decodeURIComponent h enc = Some v" by (auto simp: value_survives_def)
  from key have tk: "takeWhile (\<lambda>c. c \<noteq> CHR ''='') (k @ CHR ''='' # enc) = k"
    by (simp add: plain_key_def takeWhile_upto_sep)
  have step: "decode_parts h (part_of h e # map (part_of h) es) obj =
              decode_parts h (map (part_of h) es) (obj(k \<mapsto> v))"
    using key enc tk e by (simp add: part_of_def plain_key_def)
  have "decode_parts h (map (part_of h) es) (obj(k \<mapsto> v)) =
          Some (obj(k \<mapsto> v) ++ map_of (rev es))"
    using Cons.prems by (intro Cons.IH) simp
  moreover have "obj(k \<mapsto> v) ++ map_of (rev es) = obj ++ map_of (rev (e # es))"
    by (simp add: e map_add_def fun_eq_iff split: option.splits)
  ultimately show ?case using step by simp
qed

lemma decode_parts_body:
  assumes "\<And>e. e \<in> set es \<Longrightarrow> plain_key (fst e) \<and> value_survives h (snd e)"
  shows "decode_parts h (split (CHR ''|'') (join ''|'' (map (part_of h) es))) Map.empty =
         Some (map_of (rev es))"
proof (cases es)
  case Nil
  then show ?thesis by simp
next
  case (Cons e es')
  have "\<forall>p\<in>set (map (part_of h) es). CHR ''|'' \<notin> set p"
  proof
    fix p assume "p \<in> set (map (part_of h) es)"
    then obtain e where e: "e \<in> set es" and p: "p = part_of h e" by auto
    from assms [OF e] obtain enc where
      "encodeURIComponent h (snd e) = Some enc" "CHR ''|'' \<notin> set enc"
      and "CHR ''|'' \<notin> set (fst e)"
      by (auto simp: value_survives_def plain_key_def)
    then show "CHR ''|'' \<notin> set p" by (simp add: p part_of_def)
  qed
  moreover have "map (part_of h) es \<noteq> []" using Cons by simp
  ultimately have "split (CHR ''|'') (join [CHR ''|''] (map (part_of h) es)) = map (part_of h) es"
    by (intro split_join)
  then show ?thesis using decode_parts_encoded [OF assms, of es Map.empty] by simp
qed

subsection \<open>The test double\<close>

lemma test_host_sel:
  "localeCompare test_host = test_compare"
  "encodeURIComponent test_host = test_encode"
  "decodeURIComponent test_host = test_decode"
  "textEncode test_host = (\<lambda>s. [])"
  "subtleDigest test_host = Some test_digest"
  "verifyArbitrary test_host = Some test_verify"
  "toNumber test_host = test_toNumber"
  by (simp_all add: test_host_def)

subsection \<open>Round trip\<close>

text \<open>
  \<^bold>\<open>C5\<close>, as amended. For every type without \<open>|\<close> and every field map with distinct keys,
  in which every key is non-empty, has neither \<open>|\<close> nor \<open>=\<close> in it and is neither \<open>type\<close>
  nor \<open>__proto__\<close>, and every value is one that the host's percent codec carries, encoding
  succeeds and decoding the result gives the object made of the type and of exactly the
  original key/value pairs.
\<close>

theorem decode_encode_roundtrip:
  assumes keys: "distinct (map fst f)"
    and ok: "\<forall>e\<in>set f. plain_key (fst e) \<and> value_survives h (snd e)"
    and t: "CHR ''|'' \<notin> set t"
    and tag: "tag = chat_tag \<or> tag = livegame_tag"
  shows "\<exists>payload. encodePayload h tag t f = Inr payload \<and>
           decodePayload h tag payload = Inr (Some ((map_of f)(''type'' \<mapsto> t)))"
proof -
  define es where "es = sort_entries (localeCompare h) f"
  have set_es: "set es = set f" by (simp add: es_def set_sort_entries)
  have des: "distinct (map fst es)" unfolding es_def using keys by (rule distinct_keys_sort_entries)
  have ok_es: "plain_key (fst e) \<and> value_survives h (snd e)" if "e \<in> set es" for e
    using that ok set_es by simp
  have "encode_part h e = Some (part_of h e)" if "e \<in> set es" for e
    using ok_es [OF that] by (auto simp: encode_part_def part_of_def value_survives_def)
  then have "those (map (encode_part h) es) = Some (map (part_of h) es)"
    by (rule those_map_Some)
  then have enc: "encodePayload h tag t f =
      Inr (tag @ ''|v1|'' @ t @ ''|'' @ join ''|'' (map (part_of h) es))"
    by (simp add: encodePayload_def es_def)
  from tag have tag_ok: "CHR ''|'' \<notin> set tag" by (auto simp: chat_tag_def livegame_tag_def)
  have sp: "split (CHR ''|'') (tag @ ''|v1|'' @ t @ ''|'' @ join ''|'' (map (part_of h) es)) =
      tag # ''v1'' # t # split (CHR ''|'') (join ''|'' (map (part_of h) es))"
    using tag_ok t by (rule split_payload)
  have body: "decode_parts h (split (CHR ''|'') (join ''|'' (map (part_of h) es))) Map.empty =
      Some (map_of (rev es))"
    using ok_es by (rule decode_parts_body)
  have "distinct (map fst (rev es))" using des by (simp add: rev_map [symmetric])
  moreover have "set (rev es) = set f" using set_es by simp
  ultimately have m: "map_of (rev es) = map_of f" using keys by (simp add: map_of_inject_set)
  have no_type: "map_of f ''type'' = None"
  proof (rule ccontr)
    assume "map_of f ''type'' \<noteq> None"
    then obtain v where "map_of f ''type'' = Some v" by auto
    then have "(''type'', v) \<in> set f" by (rule map_of_SomeD)
    with ok show False by (auto simp: plain_key_def)
  qed
  have obj: "[''type'' \<mapsto> t] ++ map_of f = (map_of f)(''type'' \<mapsto> t)"
    using no_type by (auto simp: map_add_def fun_eq_iff split: option.splits)
  have "decodePayload h tag (tag @ ''|v1|'' @ t @ ''|'' @ join ''|'' (map (part_of h) es)) =
      Inr (Some ((map_of f)(''type'' \<mapsto> t)))"
    unfolding decodePayload_def sp Let_def using body m obj split_nonempty by simp
  with enc show ?thesis by simp
qed

lemma survives_space: "value_survives test_host ''lobby 1''"
  unfolding value_survives_def test_host_sel
  by (rule exI [of _ "''lobby%201''"]) code_simp
lemma survives_separators: "value_survives test_host ''a|b=c''"
  unfolding value_survives_def test_host_sel
  by (rule exI [of _ "''a%7Cb%3Dc''"]) code_simp

theorem decode_encode_roundtrip_witness:
  "distinct (map fst [(''room'', ''lobby 1''), (''text'', ''a|b=c'')]) \<and>
   plain_key ''room'' \<and> value_survives test_host ''lobby 1'' \<and>
   plain_key ''text'' \<and> value_survives test_host ''a|b=c'' \<and>
   CHR ''|'' \<notin> set ''msg'' \<and>
   (\<exists>payload.
      encodePayload test_host chat_tag ''msg'' [(''room'', ''lobby 1''), (''text'', ''a|b=c'')] =
        Inr payload \<and>
      decodePayload test_host chat_tag payload =
        Inr (Some ((map_of [(''room'', ''lobby 1''), (''text'', ''a|b=c'')])(''type'' \<mapsto> ''msg''))))"
proof -
  have 1: "distinct (map fst [(''room'', ''lobby 1''), (''text'', ''a|b=c'')])" by simp
  have 2: "\<forall>e\<in>set [(''room'', ''lobby 1''), (''text'', ''a|b=c'')].
      plain_key (fst e) \<and> value_survives test_host (snd e)"
    using survives_space survives_separators by (simp add: plain_key_def)
  have 3: "CHR ''|'' \<notin> set ''msg''" by simp
  have 4: "plain_key ''room''" "plain_key ''text''" by (simp_all add: plain_key_def)
  show ?thesis
    using 1 3 4 survives_space survives_separators
      decode_encode_roundtrip [OF 1 2 3, of chat_tag] by blast
qed

text \<open>
  As first stated, for every field map without duplicate keys, the round trip fails on a
  field named \<open>type\<close>: the decoded type is the value of that field, not the type that was
  encoded.
\<close>

theorem decode_encode_type_field_counterexample:
  "encodePayload test_host chat_tag ''msg'' [(''type'', ''x'')] = Inr ''pubsub_chat|v1|msg|type=x'' \<and>
   decodePayload test_host chat_tag ''pubsub_chat|v1|msg|type=x'' = Inr (Some [''type'' \<mapsto> ''x''])"
  by (simp add: encodePayload_def sort_entries_def encode_part_def test_host_sel test_encode_def
      encode_char_def unreserved_def decodePayload_def chat_tag_def)

subsection \<open>Order of the keys\<close>

text \<open>
  \<^bold>\<open>C6\<close>, as amended. The keys are written in ascending order of the host's
  \<open>localeCompare\<close>, and when that comparison orders the keys of a field map (two different
  keys never compare as equal), the encoding is the same string for every order in which
  the keys were inserted.
\<close>

theorem encode_order_and_determinism:
  assumes "orders_keys (localeCompare h) (fst ` set f)"
    and "distinct (map fst f)" and "distinct (map fst g)" and "set g = set f"
  shows "encodePayload h tag t g = encodePayload h tag t f \<and>
         sorted_wrt (\<lambda>a b. localeCompare h a b \<le> 0) (map fst (sort_entries (localeCompare h) f))"
proof
  show "encodePayload h tag t g = encodePayload h tag t f"
    using sort_entries_unique [OF assms] by (simp add: encodePayload_def)
  have "sorted_wrt (\<lambda>x y. localeCompare h (fst x) (fst y) \<le> 0) (sort_entries (localeCompare h) f)"
    using assms(1) by (rule sorted_sort_entries) simp
  then show "sorted_wrt (\<lambda>a b. localeCompare h a b \<le> 0) (map fst (sort_entries (localeCompare h) f))"
    by (simp add: sorted_wrt_map)
qed

lemma test_compare_values:
  "test_compare ''text'' ''text'' = 0" "test_compare ''Room'' ''Room'' = 0"
  "test_compare ''text'' ''Room'' = 1" "test_compare ''Room'' ''text'' = - 1"
  by code_simp+

lemma test_compare_orders:
  "orders_keys test_compare (fst ` set [(''text'', ''hi''), (''Room'', ''r'')])"
  by (simp add: orders_keys_def test_compare_values)

theorem encode_order_and_determinism_witness:
  "orders_keys (localeCompare test_host)
     (fst ` set [(''text'', ''hi''), (''Room'', ''r'')]) \<and>
   distinct (map fst [(''text'', ''hi''), (''Room'', ''r'')]) \<and>
   distinct (map fst [(''Room'', ''r''), (''text'', ''hi'')]) \<and>
   set [(''Room'', ''r''), (''text'', ''hi'')] =
     set [(''text'', ''hi''), (''Room'', ''r'')] \<and>
   encodePayload test_host chat_tag ''msg'' [(''Room'', ''r''), (''text'', ''hi'')] =
     encodePayload test_host chat_tag ''msg'' [(''text'', ''hi''), (''Room'', ''r'')]"
proof -
  have 1: "orders_keys (localeCompare test_host)
     (fst ` set [(''text'', ''hi''), (''Room'', ''r'')])"
    using test_compare_orders by (simp only: test_host_sel)
  have 2: "distinct (map fst [(''text'', ''hi''), (''Room'', ''r'')])" by simp
  have 3: "distinct (map fst [(''Room'', ''r''), (''text'', ''hi'')])" by simp
  have 4: "set [(''Room'', ''r''), (''text'', ''hi'')] =
     set [(''text'', ''hi''), (''Room'', ''r'')]" by auto
  show ?thesis
    using 1 2 3 4 encode_order_and_determinism [OF 1 2 3 4, of chat_tag "''msg''"] by blast
qed

text \<open>
  The order is not the order of code points: a collating comparison puts \<open>a\<close> before \<open>B\<close>,
  and so does the encoding.
\<close>

theorem encode_not_code_point_order_counterexample:
  "encodePayload test_host chat_tag ''msg'' [(''B'', ''1''), (''a'', ''2'')] =
     Inr ''pubsub_chat|v1|msg|a=2|B=1'' \<and> ''B'' < ''a''"
  by code_simp

section \<open>Properties of the chat handler\<close>

subsection \<open>Operations and single envelopes\<close>


lemma trim_prefix: "\<exists>ys. dropWhile is_space s = trim s @ ys"
proof -
  have "rev (dropWhile is_space s) =
        takeWhile is_space (rev (dropWhile is_space s)) @ dropWhile is_space (rev (dropWhile is_space s))"
    by simp
  then have "dropWhile is_space s = trim s @ rev (takeWhile is_space (rev (dropWhile is_space s)))"
    unfolding trim_def by (metis rev_append rev_rev_ident)
  then show ?thesis ..
qed

lemma trim_head: "trim s \<noteq> [] \<Longrightarrow> \<not> is_space (hd (trim s))"
proof -
  assume ne: "trim s \<noteq> []"
  obtain ys where ys: "dropWhile is_space s = trim s @ ys" using trim_prefix by blast
  with ne have "dropWhile is_space s \<noteq> []" by simp
  then have "\<not> is_space (hd (dropWhile is_space s))" by (rule hd_dropWhile)
  with ys ne show ?thesis by simp
qed

lemma trim_idem [simp]: "trim (trim s) = trim s"
proof -
  have 1: "dropWhile is_space (trim s) = trim s"
    using trim_head [of s] by (cases "trim s") auto
  have "dropWhile is_space (rev (trim s)) = rev (trim s)"
    by (simp add: trim_def)
  with 1 show ?thesis by (simp add: trim_def [of "trim s"])
qed

lemma trim_Nil [simp]: "trim [] = []"
  by (simp add: trim_def)

lemma verifyPayload_trimmed:
  "verifyPayload h p s k a = Inr v \<Longrightarrow> trim (v_derivedAddress v) = v_derivedAddress v"
  by (auto simp: verifyPayload_def split: option.splits sum.splits)

lemma identify_Inr:
  assumes "fst (identify h sess m) = Inr (p, a, n)"
  shows "trim a = a \<and> a \<noteq> [] \<and> trim n = n \<and> n \<noteq> [] \<and> length n \<le> 20 \<and>
         field p ''room'' = sess_topic sess"
  using assms verifyPayload_trimmed
  by (auto simp: identify_def Let_def split: option.splits sum.splits if_splits)



lemmas view_defs = nonces_of_def window_of_def last_of_def next_window_def


lemma isBlocked_trimmed: "trim a = a \<Longrightarrow> a \<noteq> [] \<Longrightarrow> isBlocked st a = truthy_at (blockedByAddrRef st) a"
  by (simp add: isBlocked_def)

lemma markSeenNonce_trimmed:
  assumes "trim a = a" "a \<noteq> []" "trim n = n" "n \<noteq> []"
  shows "markSeenNonce a n st =
    (if n \<in> set (nonces_of st a) then (False, st)
     else (True, st\<lparr>recentNonces := (recentNonces st)(a \<mapsto>
        (if length (nonces_of st a) \<ge> 24
         then drop (length (nonces_of st a) - 20) (nonces_of st a)
         else nonces_of st a) @ [n])\<rparr>))"
  using assms by (simp add: markSeenNonce_def nonces_of_def Let_def)

lemma recordSpam_trimmed:
  assumes "trim a = a" "a \<noteq> []"
  shows "recordSpam now a st =
    (length (next_window now (window_of st a)),
     st\<lparr>spamWindow := (spamWindow st)(a \<mapsto> next_window now (window_of st a))\<rparr>)"
  using assms by (simp add: recordSpam_def view_defs Let_def)

lemma isRateLimited_trimmed:
  assumes "trim a = a" "a \<noteq> []"
  shows "isRateLimited now a st =
    (if now - last_of st a < 1000 then (True, st)
     else (False, st\<lparr>lastAcceptedAt := (lastAcceptedAt st)(a \<mapsto> now)\<rparr>))"
  using assms by (simp add: isRateLimited_def view_defs Let_def)

lemma updateName_frame [simp]:
  "messages (updateName a nn st) = messages st"
  "rxStats (updateName a nn st) = rxStats st"
  "blockedByAddr (updateName a nn st) = blockedByAddr st"
  "blockedByAddrRef (updateName a nn st) = blockedByAddrRef st"
  "lastAcceptedAt (updateName a nn st) = lastAcceptedAt st"
  "recentNonces (updateName a nn st) = recentNonces st"
  "seenMsgId (updateName a nn st) = seenMsgId st"
  "spamWindow (updateName a nn st) = spamWindow st"
  by (simp_all add: updateName_def Let_def)

lemma blockUser_frame [simp]:
  "rxStats (blockUser sess now a r d st) = rxStats st"
  "blockedByAddrRef (blockUser sess now a r d st) = blockedByAddrRef st"
  "nameByAddr (blockUser sess now a r d st) = nameByAddr st"
  "lastAcceptedAt (blockUser sess now a r d st) = lastAcceptedAt st"
  "recentNonces (blockUser sess now a r d st) = recentNonces st"
  "seenMsgId (blockUser sess now a r d st) = seenMsgId st"
  "spamWindow (blockUser sess now a r d st) = spamWindow st"
  by (simp_all add: blockUser_def Let_def)

lemma blockUser_blocked_mono:
  "truthy_at (blockedByAddr st) x \<Longrightarrow> truthy_at (blockedByAddr (blockUser sess now a r d st)) x"
  by (simp add: blockUser_def Let_def truthy_at_def)

lemma blockUser_trimmed:
  assumes "trim a = a" "a \<noteq> []" "sess_status_address sess \<noteq> a" "\<not> truthy_at (blockedByAddr st) a"
    and "r \<noteq> []"
  shows "messages (blockUser sess now a r d st) = filter (\<lambda>m. msg_addr m \<noteq> a) (messages st)"
    and "map_option blk_reason (blockedByAddr (blockUser sess now a r d st) a) = Some r"
    and "truthy_at (blockedByAddr (blockUser sess now a r d st)) a"
  using assms by (simp_all add: blockUser_def Let_def truthy_at_def)

lemma deliver_frame [simp]:
  "nameByAddr (fst (deliver h clk p a i st)) = nameByAddr st"
  "blockedByAddr (fst (deliver h clk p a i st)) = blockedByAddr st"
  "blockedByAddrRef (fst (deliver h clk p a i st)) = blockedByAddrRef st"
  "lastAcceptedAt (fst (deliver h clk p a i st)) = lastAcceptedAt st"
  "recentNonces (fst (deliver h clk p a i st)) = recentNonces st"
  "seenMsgId (fst (deliver h clk p a i st)) = seenMsgId st"
  "spamWindow (fst (deliver h clk p a i st)) = spamWindow st"
  by (simp_all add: deliver_def Let_def accept_def drop_with_def pushMessage_def)

lemma deliver_outcome:
  "snd (deliver h clk p a i st) \<noteq> Ignored"
  "snd (deliver h clk p a i st) \<noteq> Dropped ''auto_blocked''"
  "snd (deliver h clk p a i st) \<noteq> Dropped ''blocked''"
  "snd (deliver h clk p a i st) \<noteq> Dropped ''rate_limited''"
  by (simp_all add: deliver_def Let_def accept_def drop_with_def)

lemma throttle_frame [simp]:
  "recentNonces (fst (throttle h sess clk p a i d st)) = recentNonces st"
  "blockedByAddrRef (fst (throttle h sess clk p a i d st)) = blockedByAddrRef st"
  "seenMsgId (fst (throttle h sess clk p a i d st)) = seenMsgId st"
  by (simp_all add: throttle_def recordSpam_def isRateLimited_def drop_with_def Let_def split: prod.splits)

lemma throttle_blocked_mono:
  "truthy_at (blockedByAddr st) x \<Longrightarrow> truthy_at (blockedByAddr (fst (throttle h sess clk p a i d st))) x"
  by (simp add: throttle_def recordSpam_def isRateLimited_def drop_with_def Let_def
      blockUser_blocked_mono split: prod.splits)

lemma throttle_auto_block:
  assumes "trim a = a" "a \<noteq> []"
    and "length (next_window (now_spam clk) (window_of st a)) > AUTO_BLOCK_MAX_MESSAGES"
    and "sess_status_address sess \<noteq> a"
  shows "snd (throttle h sess clk p a i d st) = Dropped ''auto_blocked''"
    and "messages (fst (throttle h sess clk p a i d st)) = filter (\<lambda>m. msg_addr m \<noteq> a) (messages st)"
    and "map_option blk_reason (blockedByAddr (fst (throttle h sess clk p a i d st)) a) =
           (if truthy_at (blockedByAddr st) a then map_option blk_reason (blockedByAddr st a)
            else Some ''auto_spam'')"
    and "truthy_at (blockedByAddr (fst (throttle h sess clk p a i d st))) a"
    and "window_of (fst (throttle h sess clk p a i d st)) a =
           next_window (now_spam clk) (window_of st a)"
  using assms
  by (simp_all add: throttle_def recordSpam_trimmed drop_with_def blockUser_def Let_def
      truthy_at_def window_of_def)

lemma throttle_under_threshold:
  assumes "trim a = a" "a \<noteq> []"
    and "length (next_window (now_spam clk) (window_of st a)) \<le> AUTO_BLOCK_MAX_MESSAGES"
  shows "throttle h sess clk p a i d st =
    (let st1 = st\<lparr>spamWindow := (spamWindow st)(a \<mapsto> next_window (now_spam clk) (window_of st a))\<rparr> in
     if now_rate clk - last_of st a < 1000 then drop_with ''rate_limited'' st1
     else deliver h clk p a i (st1\<lparr>lastAcceptedAt := (lastAcceptedAt st)(a \<mapsto> now_rate clk)\<rparr>))"
  using assms
  by (simp add: throttle_def recordSpam_trimmed isRateLimited_trimmed Let_def last_of_def)


lemma drop_with_simps [simp]:
  "snd (drop_with r st) = Dropped r"
  "messages (fst (drop_with r st)) = messages st"
  "nameByAddr (fst (drop_with r st)) = nameByAddr st"
  "blockedByAddr (fst (drop_with r st)) = blockedByAddr st"
  "blockedByAddrRef (fst (drop_with r st)) = blockedByAddrRef st"
  "lastAcceptedAt (fst (drop_with r st)) = lastAcceptedAt st"
  "recentNonces (fst (drop_with r st)) = recentNonces st"
  "seenMsgId (fst (drop_with r st)) = seenMsgId st"
  "spamWindow (fst (drop_with r st)) = spamWindow st"
  by (simp_all add: drop_with_def)

lemma admit_seen:
  "seenMsgId (fst (admit h sess clk p a n st)) =
     (if a @ '':'' @ n \<in> set (seenMsgId st) then seenMsgId st else seenMsgId st @ [a @ '':'' @ n])"
  by (simp add: admit_def Let_def markSeenNonce_def split: prod.splits)

lemma admit_blocked_mono:
  "truthy_at (blockedByAddr st) x \<Longrightarrow> truthy_at (blockedByAddr (fst (admit h sess clk p a n st))) x"
  by (simp add: admit_def Let_def markSeenNonce_def throttle_blocked_mono split: prod.splits)

lemma admit_when_blocked:
  assumes "trim a = a" "a \<noteq> []" "truthy_at (blockedByAddrRef st) a"
  shows "snd (admit h sess clk p a n st) =
           (if a @ '':'' @ n \<in> set (seenMsgId st) then Ignored else Dropped ''blocked'')"
    and "messages (fst (admit h sess clk p a n st)) = messages st"
  using assms by (simp_all add: admit_def Let_def isBlocked_trimmed)

lemma views_upd [simp]:
  "nonces_of (st\<lparr>seenMsgId := ids\<rparr>) a = nonces_of st a"
  "nonces_of (st\<lparr>spamWindow := sw\<rparr>) a = nonces_of st a"
  "nonces_of (st\<lparr>lastAcceptedAt := la\<rparr>) a = nonces_of st a"
  "nonces_of (st\<lparr>rxStats := rx\<rparr>) a = nonces_of st a"
  "nonces_of (st\<lparr>messages := ms\<rparr>) a = nonces_of st a"
  "window_of (st\<lparr>seenMsgId := ids\<rparr>) a = window_of st a"
  "window_of (st\<lparr>recentNonces := rn\<rparr>) a = window_of st a"
  "window_of (st\<lparr>lastAcceptedAt := la\<rparr>) a = window_of st a"
  "window_of (st\<lparr>rxStats := rx\<rparr>) a = window_of st a"
  "window_of (st\<lparr>messages := ms\<rparr>) a = window_of st a"
  "last_of (st\<lparr>seenMsgId := ids\<rparr>) a = last_of st a"
  "last_of (st\<lparr>recentNonces := rn\<rparr>) a = last_of st a"
  "last_of (st\<lparr>spamWindow := sw\<rparr>) a = last_of st a"
  "last_of (st\<lparr>rxStats := rx\<rparr>) a = last_of st a"
  "last_of (st\<lparr>messages := ms\<rparr>) a = last_of st a"
  by (simp_all add: view_defs)

lemma noted_simps [simp]:
  "messages (noted a n nick st) = messages st"
  "rxStats (noted a n nick st) = rxStats st"
  "blockedByAddr (noted a n nick st) = blockedByAddr st"
  "blockedByAddrRef (noted a n nick st) = blockedByAddrRef st"
  "lastAcceptedAt (noted a n nick st) = lastAcceptedAt st"
  "spamWindow (noted a n nick st) = spamWindow st"
  "seenMsgId (noted a n nick st) = seenMsgId st @ [a @ '':'' @ n]"
  "window_of (noted a n nick st) x = window_of st x"
  "last_of (noted a n nick st) x = last_of st x"
  by (simp_all add: noted_def Let_def view_defs)

lemma noted_nonces:
  "set (nonces_of (noted a n nick st) a) \<subseteq> insert n (set (nonces_of st a))"
  "x \<noteq> a \<Longrightarrow> nonces_of (noted a n nick st) x = nonces_of st x"
  by (auto simp add: noted_def Let_def nonces_of_def dest: in_set_dropD)

lemma admit_pass:
  assumes "trim a = a" "a \<noteq> []" "trim n = n" "n \<noteq> []"
    and "a @ '':'' @ n \<notin> set (seenMsgId st)"
    and "\<not> truthy_at (blockedByAddrRef st) a"
    and "n \<notin> set (nonces_of st a)"
  shows "admit h sess clk p a n st =
           throttle h sess clk p a (a @ '':'' @ n) (take 22 (trim (field p ''nick'')))
             (noted a n (take 22 (trim (field p ''nick''))) st)"
  using assms
  by (simp add: admit_def Let_def isBlocked_trimmed markSeenNonce_trimmed noted_def)

lemma identify_pair:
  "sender_of h sess m = Some a \<Longrightarrow> nonce_in h sess m = Some n \<Longrightarrow>
     \<exists>tr. identify h sess m = (Inr (parsed_of h sess m, a, n), tr)"
  by (cases "identify h sess m")
     (auto simp: sender_of_def nonce_in_def parsed_of_def split: sum.splits)

lemma identified_trimmed:
  assumes "sender_of h sess m = Some a" "nonce_in h sess m = Some n"
  shows "trim a = a" "a \<noteq> []" "trim n = n" "n \<noteq> []"
proof -
  from identify_pair [OF assms] obtain tr where
    "identify h sess m = (Inr (parsed_of h sess m, a, n), tr)" ..
  then have "fst (identify h sess m) = Inr (parsed_of h sess m, a, n)" by simp
  from identify_Inr [OF this] show "trim a = a" "a \<noteq> []" "trim n = n" "n \<noteq> []" by simp_all
qed

lemma counted_simps [simp]:
  "messages (counted st) = messages st"
  "nameByAddr (counted st) = nameByAddr st"
  "blockedByAddr (counted st) = blockedByAddr st"
  "blockedByAddrRef (counted st) = blockedByAddrRef st"
  "lastAcceptedAt (counted st) = lastAcceptedAt st"
  "recentNonces (counted st) = recentNonces st"
  "seenMsgId (counted st) = seenMsgId st"
  "spamWindow (counted st) = spamWindow st"
  "nonces_of (counted st) a = nonces_of st a"
  "window_of (counted st) a = window_of st a"
  "last_of (counted st) a = last_of st a"
  by (simp_all add: counted_def view_defs)

lemma onMessage_identified:
  assumes "sender_of h sess m = Some a" "nonce_in h sess m = Some n"
  shows "fst (onMessage h sess clk m st) = fst (admit h sess clk (parsed_of h sess m) a n (counted st))"
    and "fst (snd (onMessage h sess clk m st)) = snd (admit h sess clk (parsed_of h sess m) a n (counted st))"
proof -
  from identify_pair [OF assms] obtain tr where
    "identify h sess m = (Inr (parsed_of h sess m, a, n), tr)" ..
  then show "fst (onMessage h sess clk m st) = fst (admit h sess clk (parsed_of h sess m) a n (counted st))"
    and "fst (snd (onMessage h sess clk m st)) = snd (admit h sess clk (parsed_of h sess m) a n (counted st))"
    by (simp_all add: onMessage_def counted_def split: prod.splits)
qed

lemma commit_simps [simp]:
  "messages (commit st) = messages st"
  "nameByAddr (commit st) = nameByAddr st"
  "rxStats (commit st) = rxStats st"
  "blockedByAddr (commit st) = blockedByAddr st"
  "blockedByAddrRef (commit st) = blockedByAddr st"
  "lastAcceptedAt (commit st) = lastAcceptedAt st"
  "recentNonces (commit st) = recentNonces st"
  "seenMsgId (commit st) = seenMsgId st"
  "spamWindow (commit st) = spamWindow st"
  "nonces_of (commit st) a = nonces_of st a"
  "window_of (commit st) a = window_of st a"
  "last_of (commit st) a = last_of st a"
  by (simp_all add: commit_def view_defs)

lemma run_Cons:
  "run h sess (e # es) st =
     (fst (run h sess es (commit (fst (onMessage h sess (fst e) (snd e) st)))),
      fst (snd (onMessage h sess (fst e) (snd e) st)) #
      snd (run h sess es (commit (fst (onMessage h sess (fst e) (snd e) st)))))"
  by (simp split: prod.splits)

lemma run_append:
  "run h sess (xs @ ys) st =
     (fst (run h sess ys (fst (run h sess xs st))),
      snd (run h sess xs st) @ snd (run h sess ys (fst (run h sess xs st))))"
  by (induction xs arbitrary: st) (simp_all add: run_Cons del: run.simps(2))


lemma step_below:
  assumes id: "sender_of h sess m = Some a" "nonce_in h sess m = Some n"
    and fresh: "a @ '':'' @ n \<notin> set (seenMsgId st)" "n \<notin> set (nonces_of st a)"
    and unblocked: "\<not> truthy_at (blockedByAddrRef st) a"
    and below: "length (next_window (now_spam clk) (window_of st a)) \<le> AUTO_BLOCK_MAX_MESSAGES"
  shows "fst (snd (onMessage h sess clk m st)) \<noteq> Dropped ''auto_blocked''"
    and "blockedByAddr (fst (onMessage h sess clk m st)) = blockedByAddr st"
    and "window_of (fst (onMessage h sess clk m st)) a = next_window (now_spam clk) (window_of st a)"
    and "seenMsgId (fst (onMessage h sess clk m st)) = seenMsgId st @ [a @ '':'' @ n]"
    and "set (nonces_of (fst (onMessage h sess clk m st)) a) \<subseteq> insert n (set (nonces_of st a))"
proof -
  note tr = identified_trimmed [OF id]
  let ?p = "parsed_of h sess m"
  let ?nick = "take 22 (trim (field ?p ''nick''))"
  let ?st3 = "noted a n ?nick (counted st)"
  have adm: "admit h sess clk ?p a n (counted st) =
      throttle h sess clk ?p a (a @ '':'' @ n) ?nick ?st3"
    using tr fresh unblocked by (intro admit_pass) simp_all
  have thr: "throttle h sess clk ?p a (a @ '':'' @ n) ?nick ?st3 =
    (let st1 = ?st3\<lparr>spamWindow := (spamWindow ?st3)(a \<mapsto> next_window (now_spam clk) (window_of ?st3 a))\<rparr> in
     if now_rate clk - last_of ?st3 a < 1000 then drop_with ''rate_limited'' st1
     else deliver h clk ?p a (a @ '':'' @ n) (st1\<lparr>lastAcceptedAt := (lastAcceptedAt ?st3)(a \<mapsto> now_rate clk)\<rparr>))"
    using tr(1,2) below by (intro throttle_under_threshold) simp_all
  note om = onMessage_identified [OF id, of clk st]
  show "fst (snd (onMessage h sess clk m st)) \<noteq> Dropped ''auto_blocked''"
    unfolding om adm thr by (simp add: Let_def deliver_outcome)
  show "blockedByAddr (fst (onMessage h sess clk m st)) = blockedByAddr st"
    unfolding om adm thr by (simp add: Let_def)
  show "window_of (fst (onMessage h sess clk m st)) a = next_window (now_spam clk) (window_of st a)"
    unfolding om adm thr by (simp add: Let_def window_of_def)
  show "seenMsgId (fst (onMessage h sess clk m st)) = seenMsgId st @ [a @ '':'' @ n]"
    unfolding om adm thr by (simp add: Let_def)
  have "nonces_of (fst (onMessage h sess clk m st)) a = nonces_of ?st3 a"
    unfolding om adm thr by (simp add: Let_def nonces_of_def)
  then show "set (nonces_of (fst (onMessage h sess clk m st)) a) \<subseteq> insert n (set (nonces_of st a))"
    using noted_nonces(1) [of a n ?nick "counted st"] by simp
qed

lemma step_trigger:
  assumes id: "sender_of h sess m = Some a" "nonce_in h sess m = Some n"
    and fresh: "a @ '':'' @ n \<notin> set (seenMsgId st)" "n \<notin> set (nonces_of st a)"
    and unblocked: "\<not> truthy_at (blockedByAddrRef st) a"
    and above: "length (next_window (now_spam clk) (window_of st a)) > AUTO_BLOCK_MAX_MESSAGES"
    and other: "sess_status_address sess \<noteq> a"
  shows "fst (snd (onMessage h sess clk m st)) = Dropped ''auto_blocked''"
    and "messages (fst (onMessage h sess clk m st)) = filter (\<lambda>m. msg_addr m \<noteq> a) (messages st)"
    and "map_option blk_reason (blockedByAddr (fst (onMessage h sess clk m st)) a) =
           (if truthy_at (blockedByAddr st) a then map_option blk_reason (blockedByAddr st a)
            else Some ''auto_spam'')"
    and "truthy_at (blockedByAddr (fst (onMessage h sess clk m st))) a"
    and "seenMsgId (fst (onMessage h sess clk m st)) = seenMsgId st @ [a @ '':'' @ n]"
    and "window_of (fst (onMessage h sess clk m st)) a = next_window (now_spam clk) (window_of st a)"
proof -
  note tr = identified_trimmed [OF id]
  let ?p = "parsed_of h sess m"
  let ?nick = "take 22 (trim (field ?p ''nick''))"
  let ?st3 = "noted a n ?nick (counted st)"
  have adm: "admit h sess clk ?p a n (counted st) =
      throttle h sess clk ?p a (a @ '':'' @ n) ?nick ?st3"
    using tr fresh unblocked by (intro admit_pass) simp_all
  note om = onMessage_identified [OF id, of clk st]
  have pre: "length (next_window (now_spam clk) (window_of ?st3 a)) > AUTO_BLOCK_MAX_MESSAGES"
    using above by simp
  note ta = throttle_auto_block [OF tr(1,2) pre other, of h ?p "a @ '':'' @ n" ?nick]
  show "fst (snd (onMessage h sess clk m st)) = Dropped ''auto_blocked''"
    unfolding om adm by (rule ta(1))
  show "messages (fst (onMessage h sess clk m st)) = filter (\<lambda>m. msg_addr m \<noteq> a) (messages st)"
    unfolding om adm using ta(2) by simp
  show "map_option blk_reason (blockedByAddr (fst (onMessage h sess clk m st)) a) =
           (if truthy_at (blockedByAddr st) a then map_option blk_reason (blockedByAddr st a)
            else Some ''auto_spam'')"
    unfolding om adm using ta(3) by simp
  show "truthy_at (blockedByAddr (fst (onMessage h sess clk m st))) a"
    unfolding om adm by (rule ta(4))
  show "seenMsgId (fst (onMessage h sess clk m st)) = seenMsgId st @ [a @ '':'' @ n]"
    unfolding om adm by simp
  show "window_of (fst (onMessage h sess clk m st)) a = next_window (now_spam clk) (window_of st a)"
    unfolding om adm using ta(5) by simp
qed

lemma step_blocked:
  assumes id: "sender_of h sess m = Some a" "nonce_in h sess m = Some n"
    and blocked: "truthy_at (blockedByAddrRef st) a"
  shows "fst (snd (onMessage h sess clk m st)) =
           (if a @ '':'' @ n \<in> set (seenMsgId st) then Ignored else Dropped ''blocked'')"
    and "messages (fst (onMessage h sess clk m st)) = messages st"
    and "blockedByAddr (fst (onMessage h sess clk m st)) = blockedByAddr st"
    and "window_of (fst (onMessage h sess clk m st)) a = window_of st a"
proof -
  note tr = identified_trimmed [OF id]
  note om = onMessage_identified [OF id, of clk st]
  from blocked have b: "truthy_at (blockedByAddrRef (counted st)) a" by simp
  show "fst (snd (onMessage h sess clk m st)) =
           (if a @ '':'' @ n \<in> set (seenMsgId st) then Ignored else Dropped ''blocked'')"
    unfolding om using admit_when_blocked(1) [OF tr(1,2) b] by simp
  show "messages (fst (onMessage h sess clk m st)) = messages st"
    unfolding om using admit_when_blocked(2) [OF tr(1,2) b] by simp
  show "blockedByAddr (fst (onMessage h sess clk m st)) = blockedByAddr st"
    unfolding om using tr(1,2) b by (simp add: admit_def Let_def isBlocked_trimmed)
  show "window_of (fst (onMessage h sess clk m st)) a = window_of st a"
    unfolding om using tr(1,2) b by (simp add: admit_def Let_def isBlocked_trimmed window_of_def)
qed

subsection \<open>Senders, nonces and the window\<close>


lemma sender_has_nonce: "sender_of h sess m = Some a \<Longrightarrow> \<exists>n. nonce_in h sess m = Some n"
  by (auto simp: sender_of_def nonce_in_def split: sum.splits)

lemma msgId_inject [simp]: "(a @ '':'' @ n = a @ '':'' @ n') = (n = n')"
  by simp

lemma next_window_all:
  "\<forall>t\<in>set w. now - t < AUTO_BLOCK_WINDOW_MS \<Longrightarrow> next_window now w = w @ [now]"
  by (simp add: next_window_def)

subsection \<open>The concrete envelopes\<close>


lemma trim_no_space: "\<forall>c\<in>set s. \<not> is_space c \<Longrightarrow> trim s = s"
proof -
  assume a: "\<forall>c\<in>set s. \<not> is_space c"
  then have "dropWhile is_space s = s" by (cases s) auto
  moreover from a have "dropWhile is_space (rev s) = rev s" by (cases "rev s") auto
  ultimately show ?thesis by (simp add: trim_def)
qed

lemma test_decode_plain: "CHR ''%'' \<notin> set s \<Longrightarrow> test_decode s = Some s"
  by (induction s) auto

lemma demo_decode:
  assumes "CHR ''|'' \<notin> set type" "token n" "CHR ''|'' \<notin> set txt" "CHR ''%'' \<notin> set txt"
  shows "decodePayload test_host chat_tag
           (''pubsub_chat|v1|'' @ type @ ''|nonce='' @ n @ ''|room=lumen/pubsub_chat/v1/lobby|text='' @ txt) =
         Inr (Some [''type'' \<mapsto> type, ''nonce'' \<mapsto> n, ''room'' \<mapsto> demo_topic, ''text'' \<mapsto> txt])"
proof -
  from assms(2) have n: "CHR ''|'' \<notin> set n" "CHR ''%'' \<notin> set n" by (auto simp: token_def)
  have 1: "split (CHR ''|'') (''pubsub_chat'' @ ''|v1|'' @ type @ ''|'' @
              (''nonce='' @ n @ ''|room=lumen/pubsub_chat/v1/lobby|text='' @ txt)) =
           ''pubsub_chat'' # ''v1'' # type #
             split (CHR ''|'') (''nonce='' @ n @ ''|room=lumen/pubsub_chat/v1/lobby|text='' @ txt)"
    using assms(1) by (intro split_payload) simp_all
  have 2: "split (CHR ''|'') ((''nonce='' @ n) @ CHR ''|'' # (''room=lumen/pubsub_chat/v1/lobby'' @ CHR ''|'' # (''text='' @ txt))) =
           (''nonce='' @ n) # split (CHR ''|'') (''room=lumen/pubsub_chat/v1/lobby'' @ CHR ''|'' # (''text='' @ txt))"
    using n(1) by (intro split_append) simp
  have 3: "split (CHR ''|'') (''room=lumen/pubsub_chat/v1/lobby'' @ CHR ''|'' # (''text='' @ txt)) =
           ''room=lumen/pubsub_chat/v1/lobby'' # split (CHR ''|'') (''text='' @ txt)"
    by (intro split_append) simp
  have 4: "split (CHR ''|'') (''text='' @ txt) = [''text='' @ txt]"
    using assms(3) by (intro split_no_sep) simp
  have sp: "split (CHR ''|'') (''pubsub_chat|v1|'' @ type @ ''|nonce='' @ n @ ''|room=lumen/pubsub_chat/v1/lobby|text='' @ txt) =
      [''pubsub_chat'', ''v1'', type, ''nonce='' @ n, ''room=lumen/pubsub_chat/v1/lobby'', ''text='' @ txt]"
    using 1 2 3 4 by simp
  show ?thesis
    unfolding decodePayload_def sp Let_def
    using n(2) assms(4)
    by (simp add: chat_tag_def test_host_sel test_decode_plain demo_topic_def)
qed

lemma demo_identify:
  assumes "token k" "CHR ''|'' \<notin> set type" "token n" "length n \<le> 20"
    and "CHR ''|'' \<notin> set txt" "CHR ''%'' \<notin> set txt"
  shows "fst (identify test_host demo_session (demo_envelope k type n txt)) =
           Inr ([''type'' \<mapsto> type, ''nonce'' \<mapsto> n, ''room'' \<mapsto> demo_topic, ''text'' \<mapsto> txt],
                ''addr-'' @ k, n)"
proof -
  define pl where "pl = ''pubsub_chat|v1|'' @ type @ ''|nonce='' @ n @
                        ''|room=lumen/pubsub_chat/v1/lobby|text='' @ txt"
  define addr where "addr = ''addr-'' @ k"
  define sg where "sg = ''sig-'' @ k"
  from assms(1) have k: "k \<noteq> []" "\<forall>c\<in>set k. \<not> is_space c" by (auto simp: token_def)
  from assms(3) have n: "n \<noteq> []" "\<forall>c\<in>set n. \<not> is_space c" by (auto simp: token_def)
  have tk: "trim k = k" using k(2) by (rule trim_no_space)
  have tn: "trim n = n" using n(2) by (rule trim_no_space)
  have ta: "trim addr = addr" unfolding addr_def
    using k(2) by (intro trim_no_space) (simp add: is_space_def)
  have ts: "trim sg = sg" unfolding sg_def
    using k(2) by (intro trim_no_space) (simp add: is_space_def)
  have ne: "pl \<noteq> []" "addr \<noteq> []" "sg \<noteq> []" by (simp_all add: pl_def addr_def sg_def)
  have pow: "hasValidPow test_host pl POW_DIFFICULTY_BITS = Inr True"
    by (simp add: hasValidPow_def sha256Utf8_def test_host_sel test_digest_def
        leadingZeroBits_test_digest POW_DIFFICULTY_BITS_def)
  have dec: "decodePayload test_host chat_tag pl =
      Inr (Some [''type'' \<mapsto> type, ''nonce'' \<mapsto> n, ''room'' \<mapsto> demo_topic, ''text'' \<mapsto> txt])"
    unfolding pl_def using assms(2,3,5,6) by (rule demo_decode)
  have ver: "verifyPayload test_host pl sg k addr =
      Inr \<lparr>v_ok = True, v_signatureValid = True, v_addressMatches = True,
           v_derivedAddress = addr, v_error = []\<rparr>"
    by (simp add: verifyPayload_def test_host_sel test_verify_def sg_def addr_def ta [unfolded addr_def, simplified])
  have env: "demo_envelope k type n txt =
      \<lparr>m_json = Some \<lparr>env_payload = pl, env_address = addr, env_pubkeyB64 = k,
                        env_signatureB64 = sg\<rparr>, m_text = []\<rparr>"
    by (simp add: demo_envelope_def pl_def addr_def sg_def)
  have "fst (identify test_host demo_session (demo_envelope k type n txt)) =
           Inr ([''type'' \<mapsto> type, ''nonce'' \<mapsto> n, ''room'' \<mapsto> demo_topic, ''text'' \<mapsto> txt],
                addr, n)"
    unfolding env identify_def
    using k(1) n(1) ne assms(4)
    by (simp add: Let_def tk tn ta ts dec pow ver field_def demo_session_def)
  then show ?thesis by (simp add: addr_def)
qed

subsection \<open>Envelopes below the threshold of the burst detector\<close>


lemma step_through:
  assumes id: "sender_of h sess m = Some a" "nonce_in h sess m = Some n"
    and fresh: "a @ '':'' @ n \<notin> set (seenMsgId st)" "n \<notin> set (nonces_of st a)"
    and unblocked: "\<not> truthy_at (blockedByAddrRef st) a"
    and below: "length (next_window (now_spam clk) (window_of st a)) \<le> AUTO_BLOCK_MAX_MESSAGES"
  shows "fst (onMessage h sess clk m st) = fst (through h sess clk m a n st)"
    and "fst (snd (onMessage h sess clk m st)) = snd (through h sess clk m a n st)"
proof -
  note tr = identified_trimmed [OF id]
  let ?p = "parsed_of h sess m"
  let ?nick = "take 22 (trim (field ?p ''nick''))"
  let ?st3 = "noted a n ?nick (counted st)"
  have adm: "admit h sess clk ?p a n (counted st) =
      throttle h sess clk ?p a (a @ '':'' @ n) ?nick ?st3"
    using tr fresh unblocked by (intro admit_pass) simp_all
  have thr: "throttle h sess clk ?p a (a @ '':'' @ n) ?nick ?st3 = through h sess clk m a n st"
    using tr(1,2) below by (simp add: throttle_under_threshold through_def Let_def)
  note om = onMessage_identified [OF id, of clk st]
  show "fst (onMessage h sess clk m st) = fst (through h sess clk m a n st)"
    unfolding om adm thr ..
  show "fst (snd (onMessage h sess clk m st)) = snd (through h sess clk m a n st)"
    unfolding om adm thr ..
qed

lemma through_limited:
  assumes "now_rate clk - last_of st a < 1000"
  shows "snd (through h sess clk m a n st) = Dropped ''rate_limited''"
    and "messages (fst (through h sess clk m a n st)) = messages st"
    and "last_of (fst (through h sess clk m a n st)) a = last_of st a"
  using assms by (simp_all add: through_def Let_def last_of_def)

lemma deliver_message:
  assumes "field p ''type'' = ''msg''" "trim (field p ''text'') \<noteq> []"
    and "length (trim (field p ''text'')) \<le> 500" "length (messages st) \<le> 240"
  shows "snd (deliver h clk p a i st) = Accepted"
    and "map msg_text (messages (fst (deliver h clk p a i st))) =
           map msg_text (messages st) @ [trim (field p ''text'')]"
    and "map msg_addr (messages (fst (deliver h clk p a i st))) = map msg_addr (messages st) @ [a]"
    and "map msg_id (messages (fst (deliver h clk p a i st))) = map msg_id (messages st) @ [i]"
  using assms by (simp_all add: deliver_def Let_def accept_def pushMessage_def)

lemma deliver_invalid:
  assumes "field p ''type'' \<noteq> ''profile''"
    and "field p ''type'' \<noteq> ''msg'' \<or> trim (field p ''text'') = [] \<or> length (trim (field p ''text'')) > 500"
  shows "snd (deliver h clk p a i st) =
           Dropped (if field p ''type'' \<noteq> ''msg'' then ''unknown_type''
                    else if trim (field p ''text'') = [] then ''empty_text'' else ''text_too_long'')"
    and "messages (fst (deliver h clk p a i st)) = messages st"
  using assms by (auto simp add: deliver_def Let_def drop_with_def)

lemma through_delivered:
  assumes "\<not> now_rate clk - last_of st a < 1000"
  shows "snd (through h sess clk m a n st) =
           snd (deliver h clk (parsed_of h sess m) a (a @ '':'' @ n)
             ((noted a n (take 22 (trim (field (parsed_of h sess m) ''nick''))) (counted st))
               \<lparr>spamWindow := (spamWindow st)(a \<mapsto> next_window (now_spam clk) (window_of st a)),
                lastAcceptedAt := (lastAcceptedAt st)(a \<mapsto> now_rate clk)\<rparr>))"
    and "messages (fst (through h sess clk m a n st)) =
           messages (fst (deliver h clk (parsed_of h sess m) a (a @ '':'' @ n)
             ((noted a n (take 22 (trim (field (parsed_of h sess m) ''nick''))) (counted st))
               \<lparr>spamWindow := (spamWindow st)(a \<mapsto> next_window (now_spam clk) (window_of st a)),
                lastAcceptedAt := (lastAcceptedAt st)(a \<mapsto> now_rate clk)\<rparr>)))"
    and "last_of (fst (through h sess clk m a n st)) a = now_rate clk"
  using assms by (simp_all add: through_def Let_def last_of_def)



lemma next_window_length: "length (next_window now w) \<le> Suc (length w)"
  by (simp add: next_window_def)

lemma connected_views [simp]:
  "seenMsgId (connected b) = []"
  "nonces_of (connected b) a = []"
  "window_of (connected b) a = []"
  "last_of (connected b) a = 0"
  "blockedByAddr (connected b) = b"
  "blockedByAddrRef (connected b) = b"
  "messages (connected b) = []"
  by (simp_all add: connected_def view_defs)


subsection \<open>The time of the last admission\<close>






lemma onMessage_cases:
  "fst (onMessage h sess clk m st) =
     (case fst (identify h sess m) of
        Inl None \<Rightarrow> counted st
      | Inl (Some r) \<Rightarrow> fst (drop_with r (counted st))
      | Inr (p, b, n) \<Rightarrow> fst (admit h sess clk p b n (counted st)))"
  by (cases "identify h sess m")
     (simp add: onMessage_def counted_def split: sum.splits option.splits prod.splits)








lemma demo_facts:
  assumes "token k" "CHR ''|'' \<notin> set type" "token n" "length n \<le> 20"
    and "CHR ''|'' \<notin> set txt" "CHR ''%'' \<notin> set txt"
  shows "sender_of test_host demo_session (demo_envelope k type n txt) = Some (''addr-'' @ k)"
    and "nonce_in test_host demo_session (demo_envelope k type n txt) = Some n"
    and "parsed_of test_host demo_session (demo_envelope k type n txt) =
           [''type'' \<mapsto> type, ''nonce'' \<mapsto> n, ''room'' \<mapsto> demo_topic, ''text'' \<mapsto> txt]"
  using demo_identify [OF assms]
  by (simp_all add: sender_of_def nonce_in_def parsed_of_def)

lemma demo_verdict:
  assumes "token k" "token n" "length n \<le> 20" "token txt" "length txt \<le> 500"
  shows "verdict (parsed_of test_host demo_session (demo_envelope k ''msg'' n txt)) = Accepted"
proof -
  from assms(4) have t: "CHR ''|'' \<notin> set txt" "CHR ''%'' \<notin> set txt" "txt \<noteq> []"
    "\<forall>c\<in>set txt. \<not> is_space c" by (auto simp: token_def)
  have "trim txt = txt" using t(4) by (rule trim_no_space)
  then show ?thesis
    using demo_facts(3) [OF assms(1) _ assms(2,3) t(1,2), of "''msg''"] t(3) assms(5)
    by (simp add: verdict_def field_def)
qed

lemma tokens [simp]: "token ''K1''" "token ''n1''" "token ''n2''" "token ''hello''" "token ''again''"
  by (simp_all add: token_def is_space_def)

lemma not_blocked_K1: "\<not> truthy_at Map.empty ''addr-K1''"
  by (simp add: truthy_at_def object_prototype_keys_def)


subsection \<open>The throttle\<close>





section \<open>Properties of whole-message dedup\<close>

subsection \<open>The seen set of the live-presence surface\<close>

lemma livegame_seen_cases:
  "lg_seenMsgId (fst (onMessage_livegame h topic now m st)) = lg_seenMsgId st \<or>
   (\<exists>i. i \<notin> set (lg_seenMsgId st) \<and>
        lg_seenMsgId (fst (onMessage_livegame h topic now m st)) = prune_seen (lg_seenMsgId st) @ [i])"
  by (simp add: onMessage_livegame_def Let_def split: option.splits sum.splits)

lemma prune_seen_length:
  assumes "length seen \<le> 2501"
  shows "length (prune_seen seen) \<le> 2500"
proof (cases "2500 < length seen")
  case True
  then have "length (prune_seen seen) = length seen - 1200" by (simp add: prune_seen_def)
  also have "\<dots> \<le> 2500" using assms by linarith
  finally show ?thesis .
next
  case False
  then have "prune_seen seen = seen" by (simp add: prune_seen_def)
  with False show ?thesis by simp
qed

lemma prune_seen_subset: "set (prune_seen seen) \<subseteq> set seen"
  by (auto simp: prune_seen_def dest: in_set_dropD)

lemma prune_seen_distinct: "distinct seen \<Longrightarrow> distinct (prune_seen seen)"
  by (simp add: prune_seen_def)

lemma livegame_seen_bounded:
  "length (lg_seenMsgId st) \<le> 2501 \<Longrightarrow>
     length (lg_seenMsgId (fst (onMessage_livegame h topic now m st))) \<le> 2501"
  using livegame_seen_cases [of h topic now m st] prune_seen_length [of "lg_seenMsgId st"]
  by auto

lemma livegame_seen_distinct:
  "distinct (lg_seenMsgId st) \<Longrightarrow> distinct (lg_seenMsgId (fst (onMessage_livegame h topic now m st)))"
  using livegame_seen_cases [of h topic now m st] prune_seen_distinct [of "lg_seenMsgId st"]
    prune_seen_subset [of "lg_seenMsgId st"]
  by auto

lemma run_livegame_bounded:
  "length (lg_seenMsgId st) \<le> 2501 \<Longrightarrow> distinct (lg_seenMsgId st) \<Longrightarrow>
     length (lg_seenMsgId (run_livegame h topic evs st)) \<le> 2501 \<and>
     distinct (lg_seenMsgId (run_livegame h topic evs st))"
proof (induction evs arbitrary: st)
  case Nil
  then show ?case by simp
next
  case (Cons e es)
  let ?st1 = "fst (onMessage_livegame h topic (fst e) (snd e) st)"
  have "length (lg_seenMsgId ?st1) \<le> 2501"
    using Cons.prems(1) by (rule livegame_seen_bounded)
  moreover have "distinct (lg_seenMsgId ?st1)"
    using Cons.prems(2) by (rule livegame_seen_distinct)
  ultimately show ?case using Cons.IH [of ?st1] by simp
qed

subsection \<open>The seen set of the chat surface\<close>

lemma onMessage_seen:
  "seenMsgId (fst (onMessage h sess clk m st)) =
     (case fst (identify h sess m) of
        Inl r \<Rightarrow> seenMsgId st
      | Inr (p, a, n) \<Rightarrow>
          if a @ '':'' @ n \<in> set (seenMsgId st) then seenMsgId st
          else seenMsgId st @ [a @ '':'' @ n])"
  unfolding onMessage_cases
  by (simp add: admit_seen split: sum.splits option.splits prod.splits)

lemma run_seen_grows: "set (seenMsgId st) \<subseteq> set (seenMsgId (fst (run h sess evs st)))"
proof (induction evs arbitrary: st)
  case Nil
  show ?case by simp
next
  case (Cons e es)
  have "set (seenMsgId st) \<subseteq> set (seenMsgId (commit (fst (onMessage h sess (fst e) (snd e) st))))"
    by (auto simp: onMessage_seen split: sum.splits)
  also have "\<dots> \<subseteq> set (seenMsgId (fst (run h sess es (commit (fst (onMessage h sess (fst e) (snd e) st))))))"
    by (rule Cons.IH)
  finally show ?case by (simp add: run_Cons del: run.simps(2))
qed

subsection \<open>Message identity\<close>

lemma livegame_seen_recorded:
  assumes "m_json m = Some data" "livegame_gates h topic data parsed"
  shows "lg_seenMsgId (fst (onMessage_livegame h topic now m st)) =
           (if unverifiedId data parsed \<in> set (lg_seenMsgId st) then lg_seenMsgId st
            else prune_seen (lg_seenMsgId st) @ [unverifiedId data parsed])"
  using assms
  by (simp add: onMessage_livegame_def livegame_gates_def well_formed_def unverifiedId_def Let_def
      split: sum.splits)

lemma identify_canonical:
  assumes "fst (identify h sess m) = Inr (p, a, n)"
  shows "\<exists>data v. m_json m = Some data \<and>
           verifyPayload h (env_payload data) (trim (env_signatureB64 data))
             (trim (env_pubkeyB64 data)) (trim (env_address data)) = Inr v \<and>
           v_signatureValid v \<and>
           a = (if v_derivedAddress v \<noteq> [] then v_derivedAddress v else trim (env_address data)) \<and>
           n = trim (field p ''nonce'')"
  using assms
  by (auto simp: identify_def Let_def split: option.splits sum.splits if_splits)

text \<open>
  \<^bold>\<open>C1\<close>, as amended. In the chat surface the message identity used for whole-message dedup
  is the string \<open>canonicalAddress:nonce\<close>; the set of seen identities changes only for an
  envelope that has passed signature verification, and the canonical address is the one
  derived by verification or, when verification derives none, the address claimed in the
  envelope. In the live-presence surface the identity is \<open>claimedAddress:nonce\<close>, built
  from the address claimed in the envelope, and it is recorded for every envelope that
  passes the gates on fields, decoding, room and nonce, whatever signature verification
  says afterwards.
\<close>

theorem message_identity:
  "seenMsgId (fst (onMessage h sess clk m st)) =
     (case fst (identify h sess m) of
        Inl r \<Rightarrow> seenMsgId st
      | Inr (p, a, n) \<Rightarrow>
          if a @ '':'' @ n \<in> set (seenMsgId st) then seenMsgId st
          else seenMsgId st @ [a @ '':'' @ n]) \<and>
   (\<forall>p a n. fst (identify h sess m) = Inr (p, a, n) \<longrightarrow>
      (\<exists>data v. m_json m = Some data \<and>
         verifyPayload h (env_payload data) (trim (env_signatureB64 data))
           (trim (env_pubkeyB64 data)) (trim (env_address data)) = Inr v \<and>
         v_signatureValid v \<and>
         a = (if v_derivedAddress v \<noteq> [] then v_derivedAddress v else trim (env_address data)) \<and>
         n = trim (field p ''nonce''))) \<and>
   (\<forall>data parsed. m_json m' = Some data \<and> livegame_gates h topic data parsed \<longrightarrow>
      lg_seenMsgId (fst (onMessage_livegame h topic now m' lst)) =
        (if unverifiedId data parsed \<in> set (lg_seenMsgId lst) then lg_seenMsgId lst
         else prune_seen (lg_seenMsgId lst) @ [unverifiedId data parsed]))"
  using identify_canonical [of h sess m] livegame_seen_recorded [of m' _ h topic _ now lst]
  by (simp add: onMessage_seen)

lemma livegame_decode:
  "decodePayload test_host livegame_tag
     ''pubsub_livegame|v1|join|nick=eve|nonce=n1|room=lumen/pubsub_livegame/v1/lobby'' =
   Inr (Some [''type'' \<mapsto> ''join'', ''nick'' \<mapsto> ''eve'', ''nonce'' \<mapsto> ''n1'',
              ''room'' \<mapsto> livegame_topic])"
  by (simp add: decodePayload_def livegame_tag_def test_host_sel test_decode_plain livegame_topic_def)

lemma trim_plain [simp]:
  "trim ''mallory'' = ''mallory''" "trim ''K1'' = ''K1''" "trim ''sig-K1'' = ''sig-K1''"
  "trim ''forged'' = ''forged''" "trim ''n1'' = ''n1''" "trim ''addr-K1'' = ''addr-K1''"
  by (rule trim_no_space, simp add: is_space_def)+

lemma livegame_envelope_gates:
  "claimed \<noteq> [] \<Longrightarrow> trim claimed = claimed \<Longrightarrow> k \<noteq> [] \<Longrightarrow> trim k = k \<Longrightarrow> sg \<noteq> [] \<Longrightarrow> trim sg = sg \<Longrightarrow>
   livegame_gates test_host livegame_topic (the (m_json (livegame_envelope claimed k sg)))
     [''type'' \<mapsto> ''join'', ''nick'' \<mapsto> ''eve'', ''nonce'' \<mapsto> ''n1'', ''room'' \<mapsto> livegame_topic]"
  by (simp add: livegame_gates_def well_formed_def livegame_envelope_def livegame_decode field_def)

lemma livegame_forged:
  "onMessage_livegame test_host livegame_topic now (livegame_envelope ''mallory'' ''K1'' ''forged'')
     livegame_connected =
   (\<lparr>peers = Map.empty, lg_seenMsgId = [''mallory:n1'']\<rparr>,
    [SigAttempt ''pubsub_livegame|v1|join|nick=eve|nonce=n1|room=lumen/pubsub_livegame/v1/lobby''
       ''forged'' ''K1'' ''mallory''])"
  by (simp add: onMessage_livegame_def livegame_envelope_def livegame_decode field_def
      livegame_connected_def prune_seen_def verifyPayload_livegame_def test_host_sel test_verify_def
      livegame_topic_def Let_def)

lemma livegame_claimed:
  "lg_seenMsgId (fst (onMessage_livegame test_host livegame_topic now
     (livegame_envelope ''mallory'' ''K1'' ''sig-K1'') livegame_connected)) = [''mallory:n1''] \<and>
   map_option peer_nick (peers (fst (onMessage_livegame test_host livegame_topic now
     (livegame_envelope ''mallory'' ''K1'' ''sig-K1'') livegame_connected)) ''addr-K1'') = Some ''eve'' \<and>
   peers (fst (onMessage_livegame test_host livegame_topic now
     (livegame_envelope ''mallory'' ''K1'' ''sig-K1'') livegame_connected)) ''mallory'' = None"
  by (simp add: onMessage_livegame_def livegame_envelope_def livegame_decode field_def
      livegame_connected_def prune_seen_def verifyPayload_livegame_def test_host_sel test_verify_def
      livegame_topic_def Let_def)

theorem message_identity_witness:
  "fst (identify test_host demo_session (demo_envelope ''K1'' ''msg'' ''n1'' ''hello'')) =
     Inr ([''type'' \<mapsto> ''msg'', ''nonce'' \<mapsto> ''n1'', ''room'' \<mapsto> demo_topic, ''text'' \<mapsto> ''hello''],
          ''addr-K1'', ''n1'') \<and>
   seenMsgId (fst (onMessage test_host demo_session (at 1700000000000)
     (demo_envelope ''K1'' ''msg'' ''n1'' ''hello'') (connected Map.empty))) = [''addr-K1:n1''] \<and>
   livegame_gates test_host livegame_topic
     (the (m_json (livegame_envelope ''mallory'' ''K1'' ''sig-K1'')))
     [''type'' \<mapsto> ''join'', ''nick'' \<mapsto> ''eve'', ''nonce'' \<mapsto> ''n1'', ''room'' \<mapsto> livegame_topic] \<and>
   lg_seenMsgId (fst (onMessage_livegame test_host livegame_topic 1700000000000
     (livegame_envelope ''mallory'' ''K1'' ''sig-K1'') livegame_connected)) = [''mallory:n1'']"
proof -
  have i: "fst (identify test_host demo_session (demo_envelope ''K1'' ''msg'' ''n1'' ''hello'')) =
     Inr ([''type'' \<mapsto> ''msg'', ''nonce'' \<mapsto> ''n1'', ''room'' \<mapsto> demo_topic, ''text'' \<mapsto> ''hello''],
          ''addr-K1'', ''n1'')"
    using demo_identify [of "''K1''" "''msg''" "''n1''" "''hello''"] by simp
  have g: "livegame_gates test_host livegame_topic
     (the (m_json (livegame_envelope ''mallory'' ''K1'' ''sig-K1'')))
     [''type'' \<mapsto> ''join'', ''nick'' \<mapsto> ''eve'', ''nonce'' \<mapsto> ''n1'', ''room'' \<mapsto> livegame_topic]"
    by (rule livegame_envelope_gates) simp_all
  have j: "m_json (livegame_envelope ''mallory'' ''K1'' ''sig-K1'') =
      Some (the (m_json (livegame_envelope ''mallory'' ''K1'' ''sig-K1'')))"
    by (simp add: livegame_envelope_def)
  have u: "unverifiedId (the (m_json (livegame_envelope ''mallory'' ''K1'' ''sig-K1'')))
      [''type'' \<mapsto> ''join'', ''nick'' \<mapsto> ''eve'', ''nonce'' \<mapsto> ''n1'', ''room'' \<mapsto> livegame_topic] =
      ''mallory:n1''"
    by (simp add: unverifiedId_def livegame_envelope_def field_def)
  note mi = message_identity [of test_host demo_session "at 1700000000000"
      "demo_envelope ''K1'' ''msg'' ''n1'' ''hello''" "connected Map.empty"
      "livegame_envelope ''mallory'' ''K1'' ''sig-K1''" livegame_topic 1700000000000
      livegame_connected]
  have a: "seenMsgId (fst (onMessage test_host demo_session (at 1700000000000)
     (demo_envelope ''K1'' ''msg'' ''n1'' ''hello'') (connected Map.empty))) = [''addr-K1:n1'']"
    using mi i by simp
  have "\<forall>data parsed. m_json (livegame_envelope ''mallory'' ''K1'' ''sig-K1'') = Some data \<and>
      livegame_gates test_host livegame_topic data parsed \<longrightarrow>
      lg_seenMsgId (fst (onMessage_livegame test_host livegame_topic 1700000000000
         (livegame_envelope ''mallory'' ''K1'' ''sig-K1'') livegame_connected)) =
        (if unverifiedId data parsed \<in> set (lg_seenMsgId livegame_connected)
         then lg_seenMsgId livegame_connected
         else prune_seen (lg_seenMsgId livegame_connected) @ [unverifiedId data parsed])"
    using mi by blast
  from this [rule_format, OF conjI [OF j g]]
  have b: "lg_seenMsgId (fst (onMessage_livegame test_host livegame_topic 1700000000000
     (livegame_envelope ''mallory'' ''K1'' ''sig-K1'') livegame_connected)) = [''mallory:n1'']"
    by (simp add: u livegame_connected_def prune_seen_def)
  show ?thesis using i a g b by simp
qed

text \<open>
  As first stated, the identity would be computed after verification only, from the derived
  address. In the live-presence surface an envelope that claims the address \<open>mallory\<close>
  with a signature that verification rejects leaves the identity \<open>mallory:n1\<close> in the seen
  set and no peer; with a valid signature the peer is stored under the derived address
  \<open>addr-K1\<close> and the identity recorded is still \<open>mallory:n1\<close>.
\<close>

theorem message_identity_counterexample:
  "onMessage_livegame test_host livegame_topic 1700000000000
     (livegame_envelope ''mallory'' ''K1'' ''forged'') livegame_connected =
   (\<lparr>peers = Map.empty, lg_seenMsgId = [''mallory:n1'']\<rparr>,
    [SigAttempt ''pubsub_livegame|v1|join|nick=eve|nonce=n1|room=lumen/pubsub_livegame/v1/lobby''
       ''forged'' ''K1'' ''mallory'']) \<and>
   lg_seenMsgId (fst (onMessage_livegame test_host livegame_topic 1700000000000
     (livegame_envelope ''mallory'' ''K1'' ''sig-K1'') livegame_connected)) = [''mallory:n1''] \<and>
   map_option peer_nick (peers (fst (onMessage_livegame test_host livegame_topic 1700000000000
     (livegame_envelope ''mallory'' ''K1'' ''sig-K1'') livegame_connected)) ''addr-K1'') = Some ''eve''"
  using livegame_forged [of 1700000000000] livegame_claimed [of 1700000000000] by simp

section \<open>Properties of the room gate\<close>

text \<open>
  \<^bold>\<open>C7\<close>, as amended. In the chat surface an envelope with its four fields present whose
  decoded \<open>room\<close> differs from the subscription topic is dropped with the reason
  \<open>wrong_room\<close> before proof of work or signature verification is started: the handler
  counts the arrival and the drop and changes nothing else. In the live-presence surface
  such an envelope is dropped before signature verification is started and the state stays
  as it was, but no reason is recorded: that handler keeps no reasons.
\<close>

theorem wrong_room_dropped_unverified:
  assumes "m_json m = Some data" and "well_formed data"
  shows "(\<forall>parsed. decodePayload h chat_tag (env_payload data) = Inr (Some parsed) \<and>
            field parsed ''room'' \<noteq> sess_topic sess \<longrightarrow>
            onMessage h sess clk m st =
              (st\<lparr>rxStats := \<lparr>total = total (rxStats st) + 1, accepted = accepted (rxStats st),
                                dropped = dropped (rxStats st) + 1, lastDrop = ''wrong_room''\<rparr>\<rparr>,
               Dropped ''wrong_room'', [])) \<and>
         (\<forall>parsed. decodePayload h livegame_tag (env_payload data) = Inr (Some parsed) \<and>
            field parsed ''room'' \<noteq> topic \<longrightarrow>
            onMessage_livegame h topic now m lst = (lst, []))"
  using assms
  by (simp add: onMessage_def identify_def onMessage_livegame_def well_formed_def drop_with_def Let_def)

theorem wrong_room_dropped_unverified_witness:
  "well_formed (the (m_json (demo_envelope ''K1'' ''msg'' ''n1'' ''hello''))) \<and>
   onMessage test_host (demo_session\<lparr>sess_topic := ''lumen/pubsub_chat/v1/other''\<rparr>)
     (at 1700000000000) (demo_envelope ''K1'' ''msg'' ''n1'' ''hello'') (connected Map.empty) =
     ((connected Map.empty)
        \<lparr>rxStats := \<lparr>total = 1, accepted = 0, dropped = 1, lastDrop = ''wrong_room''\<rparr>\<rparr>,
      Dropped ''wrong_room'', []) \<and>
   well_formed (the (m_json (livegame_envelope ''mallory'' ''K1'' ''sig-K1''))) \<and>
   onMessage_livegame test_host ''lumen/pubsub_livegame/v1/other'' 1700000000000
     (livegame_envelope ''mallory'' ''K1'' ''sig-K1'') livegame_connected = (livegame_connected, [])"
proof -
  let ?m = "demo_envelope ''K1'' ''msg'' ''n1'' ''hello''"
  let ?m' = "livegame_envelope ''mallory'' ''K1'' ''sig-K1''"
  have j: "m_json ?m = Some (the (m_json ?m))" by (simp add: demo_envelope_def)
  have w: "well_formed (the (m_json ?m))" by (simp add: well_formed_def demo_envelope_def)
  have d: "decodePayload test_host chat_tag (env_payload (the (m_json ?m))) =
      Inr (Some [''type'' \<mapsto> ''msg'', ''nonce'' \<mapsto> ''n1'', ''room'' \<mapsto> demo_topic, ''text'' \<mapsto> ''hello''])"
    using demo_decode [of "''msg''" "''n1''" "''hello''"] by (simp add: demo_envelope_def)
  have r: "field [''type'' \<mapsto> ''msg'', ''nonce'' \<mapsto> ''n1'', ''room'' \<mapsto> demo_topic, ''text'' \<mapsto> ''hello'']
      ''room'' \<noteq> sess_topic (demo_session\<lparr>sess_topic := ''lumen/pubsub_chat/v1/other''\<rparr>)"
    by (simp add: field_def demo_topic_def)
  have j': "m_json ?m' = Some (the (m_json ?m'))" by (simp add: livegame_envelope_def)
  have w': "well_formed (the (m_json ?m'))" by (simp add: well_formed_def livegame_envelope_def)
  have d': "decodePayload test_host livegame_tag (env_payload (the (m_json ?m'))) =
      Inr (Some [''type'' \<mapsto> ''join'', ''nick'' \<mapsto> ''eve'', ''nonce'' \<mapsto> ''n1'',
                 ''room'' \<mapsto> livegame_topic])"
    using livegame_decode by (simp add: livegame_envelope_def)
  have r': "field [''type'' \<mapsto> ''join'', ''nick'' \<mapsto> ''eve'', ''nonce'' \<mapsto> ''n1'',
                 ''room'' \<mapsto> livegame_topic] ''room'' \<noteq> ''lumen/pubsub_livegame/v1/other''"
    by (simp add: field_def livegame_topic_def)
  have a: "onMessage test_host (demo_session\<lparr>sess_topic := ''lumen/pubsub_chat/v1/other''\<rparr>)
     (at 1700000000000) ?m (connected Map.empty) =
     ((connected Map.empty)
        \<lparr>rxStats := \<lparr>total = 1, accepted = 0, dropped = 1, lastDrop = ''wrong_room''\<rparr>\<rparr>,
      Dropped ''wrong_room'', [])"
    using wrong_room_dropped_unverified [OF j w, THEN conjunct1, rule_format, OF conjI [OF d r],
        of "at 1700000000000" "connected Map.empty"]
    by (simp add: connected_def)
  have b: "onMessage_livegame test_host ''lumen/pubsub_livegame/v1/other'' 1700000000000 ?m'
      livegame_connected = (livegame_connected, [])"
    using wrong_room_dropped_unverified [OF j' w', THEN conjunct2, rule_format, OF conjI [OF d' r']]
    by simp
  show ?thesis using w a w' b by simp
qed

text \<open>
  As first stated, the live-presence handler too would give the reason \<open>wrong_room\<close>. For
  an envelope of another room it returns at once and leaves the state of before, which has
  no peer, no seen identity and no place for a reason.
\<close>

theorem wrong_room_silent_counterexample:
  "onMessage_livegame test_host ''lumen/pubsub_livegame/v1/other'' 1700000000000
     (livegame_envelope ''mallory'' ''K1'' ''sig-K1'') livegame_connected =
   (\<lparr>peers = Map.empty, lg_seenMsgId = []\<rparr>, [])"
  by (simp add: onMessage_livegame_def livegame_envelope_def livegame_decode field_def
      livegame_connected_def livegame_topic_def Let_def)

section \<open>Properties of the fallback without verification\<close>

text \<open>
  \<^bold>\<open>C9\<close>. In the live-presence surface, when the host has no signature verification,
  \<open>verifyPayload\<close> answers that the signature is valid and gives an empty derived address;
  a new \<open>join\<close> or \<open>state\<close> envelope that passes the earlier gates is then stored as a peer
  under the address claimed in the envelope.
\<close>

theorem fallback_trusts_claimed_address:
  assumes "verifyArbitrary h = None"
  shows "verifyPayload_livegame h payload sg k claimed =
           Inr \<lparr>lv_ok = True, lv_signatureValid = True, lv_derivedAddress = [], lv_error = []\<rparr> \<and>
         (\<forall>data parsed.
            m_json m = Some data \<and> livegame_gates h topic data parsed \<and>
            unverifiedId data parsed \<notin> set (lg_seenMsgId st) \<and>
            (field parsed ''type'' = ''join'' \<or> field parsed ''type'' = ''state'') \<longrightarrow>
            (\<exists>entry. peers (fst (onMessage_livegame h topic now m st)) =
                       (peers st)(trim (env_address data) \<mapsto> entry)) \<and>
            snd (onMessage_livegame h topic now m st) =
              [SigAttempt (env_payload data) (trim (env_signatureB64 data))
                 (trim (env_pubkeyB64 data)) (trim (env_address data))])"
  using assms
  by (auto simp add: verifyPayload_livegame_def onMessage_livegame_def livegame_gates_def
      well_formed_def unverifiedId_def Let_def)

lemma decode_parts_host:
  "decodeURIComponent h = decodeURIComponent h' \<Longrightarrow> decode_parts h ps obj = decode_parts h' ps obj"
  by (induction ps arbitrary: obj) (simp_all add: Let_def split: option.splits)

lemma decodePayload_host:
  "decodeURIComponent h = decodeURIComponent h' \<Longrightarrow> decodePayload h tag p = decodePayload h' tag p"
  using decode_parts_host [of h h'] by (simp add: decodePayload_def Let_def)

lemma unverified_sel:
  "verifyArbitrary test_host_unverified = None"
  "decodeURIComponent test_host_unverified = decodeURIComponent test_host"
  by (simp_all add: test_host_unverified_def)

theorem fallback_trusts_claimed_address_witness:
  "verifyArbitrary test_host_unverified = None \<and>
   livegame_gates test_host_unverified livegame_topic
     (the (m_json (livegame_envelope ''mallory'' ''K1'' ''forged'')))
     [''type'' \<mapsto> ''join'', ''nick'' \<mapsto> ''eve'', ''nonce'' \<mapsto> ''n1'', ''room'' \<mapsto> livegame_topic] \<and>
   map_option peer_nick
     (peers (fst (onMessage_livegame test_host_unverified livegame_topic 1700000000000
        (livegame_envelope ''mallory'' ''K1'' ''forged'') livegame_connected)) ''mallory'') =
     Some ''eve'' \<and>
   peers (fst (onMessage_livegame test_host_unverified livegame_topic 1700000000000
      (livegame_envelope ''mallory'' ''K1'' ''forged'') livegame_connected)) ''addr-K1'' = None"
proof -
  let ?m = "livegame_envelope ''mallory'' ''K1'' ''forged''"
  let ?p = "[''type'' \<mapsto> ''join'', ''nick'' \<mapsto> ''eve'', ''nonce'' \<mapsto> ''n1'', ''room'' \<mapsto> livegame_topic]"
  have j: "m_json ?m = Some (the (m_json ?m))" by (simp add: livegame_envelope_def)
  have "livegame_gates test_host livegame_topic (the (m_json ?m)) ?p"
    by (rule livegame_envelope_gates) simp_all
  then have g: "livegame_gates test_host_unverified livegame_topic (the (m_json ?m)) ?p"
    by (simp add: livegame_gates_def decodePayload_host [OF unverified_sel(2)])
  have u: "unverifiedId (the (m_json ?m)) ?p \<notin> set (lg_seenMsgId livegame_connected)"
    by (simp add: livegame_connected_def)
  have t: "field ?p ''type'' = ''join'' \<or> field ?p ''type'' = ''state''" by (simp add: field_def)
  from fallback_trusts_claimed_address [OF unverified_sel(1), THEN conjunct2, rule_format,
      OF conjI [OF j conjI [OF g conjI [OF u t]]], of 1700000000000]
  obtain entry where e: "peers (fst (onMessage_livegame test_host_unverified livegame_topic 1700000000000
        ?m livegame_connected)) = (peers livegame_connected)(trim (env_address (the (m_json ?m))) \<mapsto> entry)"
    by blast
  have k: "peers (fst (onMessage_livegame test_host_unverified livegame_topic 1700000000000
        ?m livegame_connected)) ''addr-K1'' = None"
    using e by (simp add: livegame_envelope_def livegame_connected_def)
  have "map_option peer_nick
     (peers (fst (onMessage_livegame test_host_unverified livegame_topic 1700000000000
        ?m livegame_connected)) ''mallory'') = Some ''eve''"
    using g
    by (simp add: onMessage_livegame_def livegame_gates_def well_formed_def livegame_envelope_def
        Let_def field_def livegame_connected_def prune_seen_def verifyPayload_livegame_def
        unverified_sel(1))
  with g k show ?thesis by (simp add: unverified_sel(1))
qed

section \<open>Properties of the size of the seen sets\<close>

text \<open>
  \<^bold>\<open>C8\<close>, as amended. In the live-presence surface the set of seen message identities is
  bounded: in a session it never holds more than 2501 identities, all different, and an
  envelope either leaves it as it is or adds one new identity at the end, after the 1200
  oldest have been removed when the set held more than 2500. In the chat surface the set
  is not capped: an identity that it holds stays for the rest of the session.
\<close>

theorem seen_set_capped_in_live_presence:
  "length (lg_seenMsgId (run_livegame h topic evs livegame_connected)) \<le> 2501 \<and>
   distinct (lg_seenMsgId (run_livegame h topic evs livegame_connected)) \<and>
   (lg_seenMsgId (fst (onMessage_livegame h topic now m lst)) = lg_seenMsgId lst \<or>
    (\<exists>i. i \<notin> set (lg_seenMsgId lst) \<and>
         lg_seenMsgId (fst (onMessage_livegame h topic now m lst)) =
           (if length (lg_seenMsgId lst) > 2500 then drop 1200 (lg_seenMsgId lst)
            else lg_seenMsgId lst) @ [i])) \<and>
   set (seenMsgId st) \<subseteq> set (seenMsgId (fst (run h sess evs' st)))"
  using run_livegame_bounded [of livegame_connected h topic evs]
    livegame_seen_cases [of h topic now m lst] run_seen_grows [of st h sess evs']
  by (simp add: livegame_connected_def prune_seen_def)

theorem seen_set_capped_in_live_presence_witness:
  "length (lg_seenMsgId (run_livegame test_host livegame_topic
      [(1700000000000, livegame_envelope ''mallory'' ''K1'' ''sig-K1'')] livegame_connected)) \<le> 2501 \<and>
   set (seenMsgId (connected Map.empty)) \<subseteq>
     set (seenMsgId (fst (run test_host demo_session [burst_envelope 0] (connected Map.empty))))"
  using seen_set_capped_in_live_presence [of test_host livegame_topic
      "[(1700000000000, livegame_envelope ''mallory'' ''K1'' ''sig-K1'')]" _ _ _
      "connected Map.empty" demo_session "[burst_envelope 0]"]
  by blast

lemma crowd_facts:
  "sender_of test_host demo_session (snd (crowd_envelope i)) =
     Some (''addr-'' @ replicate (Suc i) (CHR ''k''))"
  "nonce_in test_host demo_session (snd (crowd_envelope i)) = Some ''n1''"
proof -
  have k: "token (replicate (Suc i) (CHR ''k''))" by (simp add: token_def is_space_def)
  show "sender_of test_host demo_session (snd (crowd_envelope i)) =
     Some (''addr-'' @ replicate (Suc i) (CHR ''k''))"
    using demo_facts(1) [OF k, of "''msg''" "''n1''" "''hello''"] by (simp add: crowd_envelope_def)
  show "nonce_in test_host demo_session (snd (crowd_envelope i)) = Some ''n1''"
    using demo_facts(2) [OF k, of "''msg''" "''n1''" "''hello''"] by (simp add: crowd_envelope_def)
qed

lemma crowd_identify:
  "\<exists>p. fst (identify test_host demo_session (snd (crowd_envelope i))) =
     Inr (p, ''addr-'' @ replicate (Suc i) (CHR ''k''), ''n1'')"
  using identify_pair [OF crowd_facts(1) crowd_facts(2), of i] by auto

lemma crowd_seen:
  "seenMsgId (fst (run test_host demo_session (map crowd_envelope [0..<n]) (connected Map.empty))) =
     map (\<lambda>i. ''addr-'' @ replicate (Suc i) (CHR ''k'') @ '':n1'') [0..<n]"
proof (induction n)
  case 0
  show ?case by simp
next
  case (Suc n)
  let ?st = "fst (run test_host demo_session (map crowd_envelope [0..<n]) (connected Map.empty))"
  obtain p where p: "fst (identify test_host demo_session (snd (crowd_envelope n))) =
     Inr (p, ''addr-'' @ replicate (Suc n) (CHR ''k''), ''n1'')" using crowd_identify by blast
  have new: "''addr-'' @ replicate (Suc n) (CHR ''k'') @ '':n1'' \<notin> set (seenMsgId ?st)"
    by (auto simp: Suc.IH replicate_eq_replicate)
  have "seenMsgId (fst (onMessage test_host demo_session (fst (crowd_envelope n)) (snd (crowd_envelope n)) ?st)) =
      seenMsgId ?st @ [''addr-'' @ replicate (Suc n) (CHR ''k'') @ '':n1'']"
    using new by (simp add: onMessage_seen p)
  then show ?case
    by (simp add: run_append run_Cons Suc.IH del: run.simps(2))
qed

text \<open>
  As first stated, the set of the chat surface would be capped too. After 2502 valid
  envelopes of different senders it holds 2502 identities, the first one among them, and
  no number bounds its size over all sessions.
\<close>

theorem chat_seen_set_unbounded_counterexample:
  "length (seenMsgId (fst (run test_host demo_session (map crowd_envelope [0..<2502])
      (connected Map.empty)))) = 2502 \<and>
   ''addr-k:n1'' \<in> set (seenMsgId (fst (run test_host demo_session (map crowd_envelope [0..<2502])
      (connected Map.empty)))) \<and>
   \<not> (\<exists>N. \<forall>evs. length (seenMsgId (fst (run test_host demo_session evs (connected Map.empty)))) \<le> N)"
proof -
  have a: "length (seenMsgId (fst (run test_host demo_session (map crowd_envelope [0..<2502])
      (connected Map.empty)))) = 2502"
    by (simp only: crowd_seen length_map length_upt)
  have "(\<lambda>i. ''addr-'' @ replicate (Suc i) (CHR ''k'') @ '':n1'') 0 \<in>
      (\<lambda>i. ''addr-'' @ replicate (Suc i) (CHR ''k'') @ '':n1'') ` {0..<2502}"
    by (rule imageI) simp
  then have b: "''addr-k:n1'' \<in> set (seenMsgId (fst (run test_host demo_session
      (map crowd_envelope [0..<2502]) (connected Map.empty))))"
    by (simp only: crowd_seen set_map set_upt) simp
  have c: "\<not> (\<exists>N. \<forall>evs. length (seenMsgId (fst (run test_host demo_session evs (connected Map.empty)))) \<le> N)"
  proof
    assume "\<exists>N. \<forall>evs. length (seenMsgId (fst (run test_host demo_session evs (connected Map.empty)))) \<le> N"
    then obtain N where
      "\<forall>evs. length (seenMsgId (fst (run test_host demo_session evs (connected Map.empty)))) \<le> N" ..
    then have "length (seenMsgId (fst (run test_host demo_session (map crowd_envelope [0..<Suc N])
        (connected Map.empty)))) \<le> N" by blast
    then show False by (simp only: crowd_seen length_map length_upt)
  qed
  from a b c show ?thesis by blast
qed


section \<open>Properties of the burst detector\<close>

subsection \<open>Sessions\<close>

lemma play_simps [simp]:
  "play h sess [] st = st"
  "play h sess (e # es) st = play h sess es (step h sess e st)"
  by (simp_all add: play_def)

lemma play_append: "play h sess (xs @ ys) st = play h sess ys (play h sess xs st)"
  by (simp add: play_def)

lemma play_snoc: "play h sess (xs @ [e]) st = step h sess e (play h sess xs st)"
  by (simp add: play_append)

lemma ids_in_append: "ids_in h sess (xs @ ys) = ids_in h sess xs @ ids_in h sess ys"
  by (induction xs) (simp_all split: option.splits)

lemma readings_append:
  "readings h sess a (xs @ ys) = readings h sess a xs @ readings h sess a ys"
  by (induction xs rule: readings.induct) simp_all

lemma unrepeated_append:
  "unrepeated h sess a earlier (xs @ ys) \<longleftrightarrow>
     unrepeated h sess a earlier xs \<and> unrepeated h sess a (earlier @ ids_in h sess xs) ys"
proof (induction xs arbitrary: earlier)
  case Nil
  show ?case by simp
next
  case (Cons e es)
  have "ids_in h sess (e # es) = ids_in h sess [e] @ ids_in h sess es"
    using ids_in_append [of h sess "[e]" es] by simp
  then show ?case using Cons.IH [of "earlier @ ids_in h sess [e]"] by (simp del: ids_in.simps)
qed

lemma close_together_append:
  "close_together (xs @ ys) \<Longrightarrow> close_together xs"
  by (simp add: close_together_def)

lemma close_together_snoc:
  "close_together (ts @ [t]) \<Longrightarrow> next_window t ts = ts @ [t]"
  by (simp add: close_together_def next_window_def)

lemma truthy_at_cong: "f k = g k \<Longrightarrow> truthy_at f k = truthy_at g k"
  by (simp add: truthy_at_def)

subsection \<open>What every arrival keeps\<close>

lemma admit_ref [simp]:
  "blockedByAddrRef (fst (admit h sess clk p b n st)) = blockedByAddrRef st"
  by (simp add: admit_def Let_def markSeenNonce_def split: prod.splits)

lemma onMessage_ref [simp]:
  "blockedByAddrRef (fst (onMessage h sess clk m st)) = blockedByAddrRef st"
  unfolding onMessage_cases by (simp split: sum.splits option.splits prod.splits)

lemma onMessage_blocked_mono:
  "truthy_at (blockedByAddr st) x \<Longrightarrow> truthy_at (blockedByAddr (fst (onMessage h sess clk m st))) x"
  unfolding onMessage_cases
  using admit_blocked_mono [of "counted st" x h sess clk]
  by (simp split: sum.splits option.splits prod.splits)

lemma step_blocked_mono:
  "truthy_at (blockedByAddr st) x \<Longrightarrow> truthy_at (blockedByAddr (step h sess e st)) x"
  by (cases e) (simp_all add: onMessage_blocked_mono)

lemma play_blocked_mono:
  "truthy_at (blockedByAddr st) x \<Longrightarrow> truthy_at (blockedByAddr (play h sess evs st)) x"
  by (induction evs arbitrary: st) (simp_all add: step_blocked_mono)

lemma play_ref_mono:
  "truthy_at (blockedByAddr st) x \<Longrightarrow> truthy_at (blockedByAddrRef st) x \<Longrightarrow>
     truthy_at (blockedByAddrRef (play h sess evs st)) x"
proof (induction evs arbitrary: st)
  case Nil
  then show ?case by simp
next
  case (Cons e es)
  have "truthy_at (blockedByAddr (step h sess e st)) x"
    using Cons.prems(1) by (rule step_blocked_mono)
  moreover have "truthy_at (blockedByAddrRef (step h sess e st)) x"
    using Cons.prems by (cases e) simp_all
  ultimately show ?case using Cons.IH by simp
qed

lemma play_committed:
  "truthy_at (blockedByAddr st) x \<Longrightarrow> Commit \<in> set evs \<Longrightarrow>
     truthy_at (blockedByAddrRef (play h sess evs st)) x"
proof (induction evs arbitrary: st)
  case Nil
  then show ?case by simp
next
  case (Cons e es)
  have b: "truthy_at (blockedByAddr (step h sess e st)) x"
    using Cons.prems(1) by (rule step_blocked_mono)
  show ?case
  proof (cases "e = Commit")
    case True
    then have "truthy_at (blockedByAddrRef (step h sess e st)) x" using Cons.prems(1) by simp
    with b show ?thesis by (simp add: play_ref_mono)
  next
    case False
    with Cons.prems(2) have "Commit \<in> set es" by auto
    with b show ?thesis using Cons.IH by simp
  qed
qed

lemma play_ref_sub:
  "\<forall>x. truthy_at (blockedByAddrRef st) x \<longrightarrow> truthy_at (blockedByAddr st) x \<Longrightarrow>
   truthy_at (blockedByAddrRef (play h sess evs st)) x \<Longrightarrow>
   truthy_at (blockedByAddr (play h sess evs st)) x"
proof (induction evs arbitrary: st)
  case Nil
  then show ?case by simp
next
  case (Cons e es)
  have "\<forall>x. truthy_at (blockedByAddrRef (step h sess e st)) x \<longrightarrow>
      truthy_at (blockedByAddr (step h sess e st)) x"
    using Cons.prems(1) by (cases e) (simp_all add: onMessage_blocked_mono)
  from Cons.IH [OF this] Cons.prems(2) show ?case by simp
qed

lemma play_seen:
  "set (seenMsgId (play h sess evs st)) = set (seenMsgId st) \<union> set (ids_in h sess evs)"
proof (induction evs arbitrary: st)
  case Nil
  show ?case by simp
next
  case (Cons e es)
  have "set (seenMsgId (step h sess e st)) = set (seenMsgId st) \<union> set (ids_in h sess [e])"
    by (cases e) (auto simp: onMessage_seen split: sum.splits)
  moreover have "ids_in h sess (e # es) = ids_in h sess [e] @ ids_in h sess es"
    using ids_in_append [of h sess "[e]" es] by simp
  ultimately show ?case using Cons.IH [of "step h sess e st"] by (auto simp del: ids_in.simps)
qed


subsection \<open>Nonces and identities\<close>

lemma admit_nonces_seen:
  assumes "trim b = b" "b \<noteq> []" "trim n = n" "n \<noteq> []"
    and "\<forall>x k. k \<in> set (nonces_of st x) \<longrightarrow> x @ '':'' @ k \<in> set (seenMsgId st)"
  shows "\<forall>x k. k \<in> set (nonces_of (fst (admit h sess clk p b n st)) x) \<longrightarrow>
           x @ '':'' @ k \<in> set (seenMsgId (fst (admit h sess clk p b n st)))"
proof (intro allI impI)
  fix x k
  assume k: "k \<in> set (nonces_of (fst (admit h sess clk p b n st)) x)"
  let ?st' = "fst (admit h sess clk p b n st)"
  have seen: "set (seenMsgId st) \<subseteq> set (seenMsgId ?st')" by (auto simp: admit_seen)
  have new: "b @ '':'' @ n \<in> set (seenMsgId ?st')" by (simp add: admit_seen)
  have "k \<in> set (nonces_of st x) \<or> (x = b \<and> k = n)"
    using k assms(1-4)
    by (auto simp: admit_def Let_def isBlocked_trimmed markSeenNonce_trimmed nonces_of_def
        dest: in_set_dropD split: if_splits)
  then show "x @ '':'' @ k \<in> set (seenMsgId ?st')"
    using assms(5) seen new by auto
qed

lemma step_nonces_seen:
  assumes "\<forall>x k. k \<in> set (nonces_of st x) \<longrightarrow> x @ '':'' @ k \<in> set (seenMsgId st)"
  shows "\<forall>x k. k \<in> set (nonces_of (step h sess e st) x) \<longrightarrow>
           x @ '':'' @ k \<in> set (seenMsgId (step h sess e st))"
proof (cases e)
  case Commit
  then show ?thesis using assms by simp
next
  case (Arrival clk m)
  show ?thesis
  proof (cases "fst (identify h sess m)")
    case (Inl r)
    then show ?thesis using assms Arrival
      by (cases r) (simp_all add: onMessage_cases nonces_of_def)
  next
    case (Inr t)
    obtain p b n where t: "t = (p, b, n)" by (cases t)
    from identify_Inr [OF Inr [unfolded t]]
    have tr: "trim b = b" "b \<noteq> []" "trim n = n" "n \<noteq> []" by simp_all
    have "\<forall>x k. k \<in> set (nonces_of (counted st) x) \<longrightarrow> x @ '':'' @ k \<in> set (seenMsgId (counted st))"
      using assms by simp
    from admit_nonces_seen [OF tr this, of h sess clk p]
    show ?thesis using Arrival Inr t by (simp add: onMessage_cases)
  qed
qed

lemma play_nonces_seen:
  assumes "\<forall>x k. k \<in> set (nonces_of st x) \<longrightarrow> x @ '':'' @ k \<in> set (seenMsgId st)"
  shows "\<forall>x k. k \<in> set (nonces_of (play h sess evs st) x) \<longrightarrow>
           x @ '':'' @ k \<in> set (seenMsgId (play h sess evs st))"
  using assms
proof (induction evs arbitrary: st)
  case Nil
  then show ?case by simp
next
  case (Cons e es)
  from Cons.IH [OF step_nonces_seen [OF Cons.prems]] show ?case by simp
qed

subsection \<open>Arrivals from other addresses\<close>

lemma throttle_other:
  assumes "trim b = b" "b \<noteq> []" "b \<noteq> a"
  shows "window_of (fst (throttle h sess clk p b i d st)) a = window_of st a"
    and "blockedByAddr (fst (throttle h sess clk p b i d st)) a = blockedByAddr st a"
    and "last_of (fst (throttle h sess clk p b i d st)) a = last_of st a"
  using assms
  by (auto simp add: throttle_def recordSpam_trimmed isRateLimited_trimmed blockUser_def Let_def
      view_defs)

lemma admit_other:
  assumes "trim b = b" "b \<noteq> []" "b \<noteq> a"
  shows "window_of (fst (admit h sess clk p b n st)) a = window_of st a"
    and "blockedByAddr (fst (admit h sess clk p b n st)) a = blockedByAddr st a"
    and "last_of (fst (admit h sess clk p b n st)) a = last_of st a"
proof -
  have u: "window_of (updateName b d s) a = window_of s a"
    "last_of (updateName b d s) a = last_of s a" for d s
    by (simp_all add: view_defs)
  have v: "window_of (fst (drop_with r s)) a = window_of s a"
    "last_of (fst (drop_with r s)) a = last_of s a" for r s
    by (simp_all add: view_defs)
  show "window_of (fst (admit h sess clk p b n st)) a = window_of st a"
    and "blockedByAddr (fst (admit h sess clk p b n st)) a = blockedByAddr st a"
    and "last_of (fst (admit h sess clk p b n st)) a = last_of st a"
    using assms
    by (simp_all add: admit_def Let_def split_beta throttle_other markSeenNonce_def u v)
qed

lemma onMessage_other:
  assumes "sender_of h sess m \<noteq> Some a"
  shows "window_of (fst (onMessage h sess clk m st)) a = window_of st a"
    and "blockedByAddr (fst (onMessage h sess clk m st)) a = blockedByAddr st a"
    and "last_of (fst (onMessage h sess clk m st)) a = last_of st a"
proof -
  have "window_of (fst (onMessage h sess clk m st)) a = window_of st a \<and>
        blockedByAddr (fst (onMessage h sess clk m st)) a = blockedByAddr st a \<and>
        last_of (fst (onMessage h sess clk m st)) a = last_of st a"
  proof (cases "fst (identify h sess m)")
    case (Inl r)
    then show ?thesis by (cases r) (simp_all add: onMessage_cases view_defs)
  next
    case (Inr t)
    obtain p b n where t: "t = (p, b, n)" by (cases t)
    from identify_Inr [OF Inr [unfolded t]] have tr: "trim b = b" "b \<noteq> []" by simp_all
    from assms Inr t have "b \<noteq> a" by (simp add: sender_of_def)
    from admit_other [OF tr this, of h sess clk p n "counted st"]
    show ?thesis using Inr t by (simp add: onMessage_cases)
  qed
  then show "window_of (fst (onMessage h sess clk m st)) a = window_of st a"
    and "blockedByAddr (fst (onMessage h sess clk m st)) a = blockedByAddr st a"
    and "last_of (fst (onMessage h sess clk m st)) a = last_of st a"
    by simp_all
qed


subsection \<open>The window of one address along a session\<close>

lemma ident_identified:
  "sender_of h sess m = Some a \<Longrightarrow> nonce_in h sess m = Some n \<Longrightarrow>
     ident_of h sess (Arrival clk m) = Some (a @ '':'' @ n)"
  by (auto simp: sender_of_def nonce_in_def split: sum.splits)

lemma unrepeated_snoc:
  assumes "unrepeated h sess a earlier (evs @ [Arrival clk m])"
    and "sender_of h sess m = Some a" "nonce_in h sess m = Some n"
  shows "a @ '':'' @ n \<notin> set earlier \<union> set (ids_in h sess evs)"
  using assms ident_identified [OF assms(2,3), of clk]
  by (auto simp: unrepeated_append)

lemma window_through_append:
  "window_through w (xs @ ys) = window_through (window_through w xs) ys"
  by (induction xs arbitrary: w) simp_all

lemma quiet_append:
  "quiet w (xs @ ys) \<longleftrightarrow> quiet w xs \<and> quiet (window_through w xs) ys"
  by (induction xs arbitrary: w) auto

lemma window_through_close:
  "close_together ts \<Longrightarrow> \<exists>w'. window_through w ts = w' @ ts \<and> set w' \<subseteq> set w"
proof (induction ts rule: rev_induct)
  case Nil
  show ?case by simp
next
  case (snoc t ts)
  from snoc.prems have "close_together ts" by (rule close_together_append)
  with snoc.IH obtain w' where w': "window_through w ts = w' @ ts" "set w' \<subseteq> set w" by blast
  have keep: "filter (\<lambda>x. t - x < AUTO_BLOCK_WINDOW_MS) ts = ts"
    using snoc.prems by (simp add: close_together_def)
  have "window_through w (ts @ [t]) =
      filter (\<lambda>x. t - x < AUTO_BLOCK_WINDOW_MS) w' @ ts @ [t]"
    by (simp add: window_through_append w'(1) next_window_def keep)
  moreover have "set (filter (\<lambda>x. t - x < AUTO_BLOCK_WINDOW_MS) w') \<subseteq> set w"
    using w'(2) by auto
  ultimately show ?case by (metis append.assoc)
qed

lemma window_through_close_length:
  "close_together ts \<Longrightarrow> length ts \<le> length (window_through w ts)"
  using window_through_close [of ts w] by auto

lemma window_through_close_empty: "close_together ts \<Longrightarrow> window_through [] ts = ts"
  using window_through_close [of ts "[]"] by auto

lemma quiet_close:
  "close_together ts \<Longrightarrow> length ts \<le> AUTO_BLOCK_MAX_MESSAGES \<Longrightarrow> quiet [] ts"
proof (induction ts rule: rev_induct)
  case Nil
  show ?case by simp
next
  case (snoc t ts)
  from snoc.prems(1) have c: "close_together ts" by (rule close_together_append)
  with snoc have "quiet [] ts" by simp
  moreover have "next_window t (window_through [] ts) = ts @ [t]"
    using snoc.prems(1) by (simp add: window_through_close_empty [OF c] close_together_snoc)
  ultimately show ?case using snoc.prems(2) by (simp add: quiet_append)
qed

lemma play_facts:
  assumes unblocked: "\<not> truthy_at blocklist a" and other: "sess_status_address sess \<noteq> a"
  shows "unrepeated h sess a [] evs \<Longrightarrow>
    (\<not> truthy_at (blockedByAddrRef (play h sess evs (connected blocklist))) a \<longrightarrow>
       window_of (play h sess evs (connected blocklist)) a =
         window_through [] (readings h sess a evs)) \<and>
    (quiet [] (readings h sess a evs) \<longrightarrow>
       \<not> truthy_at (blockedByAddr (play h sess evs (connected blocklist))) a) \<and>
    (truthy_at (blockedByAddr (play h sess evs (connected blocklist))) a \<longrightarrow>
       map_option blk_reason (blockedByAddr (play h sess evs (connected blocklist)) a) =
         Some ''auto_spam'')"
proof (induction evs rule: rev_induct)
  case Nil
  show ?case using unblocked by simp
next
  case (snoc e evs)
  let ?st = "play h sess evs (connected blocklist)"
  have unrep: "unrepeated h sess a [] evs" using snoc.prems(1) by (simp add: unrepeated_append)
  note IH = snoc.IH [OF unrep]
  have sub: "truthy_at (blockedByAddrRef ?st) a \<Longrightarrow> truthy_at (blockedByAddr ?st) a"
    by (rule play_ref_sub) simp_all
  have seen: "set (seenMsgId ?st) = set (ids_in h sess evs)" by (simp add: play_seen)
  have nonces: "\<forall>x k. k \<in> set (nonces_of ?st x) \<longrightarrow> x @ '':'' @ k \<in> set (seenMsgId ?st)"
    by (rule play_nonces_seen) simp
  show ?case
  proof (cases e)
    case Commit
    show ?thesis unfolding play_snoc Commit using IH sub by (auto simp: readings_append)
  next
    case (Arrival clk m)
    show ?thesis
    proof (cases "sender_of h sess m = Some a")
      case False
      note fr = onMessage_other [OF False, of clk ?st]
      have "truthy_at (blockedByAddr (fst (onMessage h sess clk m ?st))) a =
          truthy_at (blockedByAddr ?st) a"
        using fr(2) by (rule truthy_at_cong)
      then show ?thesis
        unfolding play_snoc Arrival using IH fr False by (simp add: readings_append)
    next
      case True
      then obtain n where n: "nonce_in h sess m = Some n" using sender_has_nonce by blast
      have r: "readings h sess a (evs @ [Arrival clk m]) = readings h sess a evs @ [now_spam clk]"
        using True by (simp add: readings_append)
      have fresh_id: "a @ '':'' @ n \<notin> set (seenMsgId ?st)"
        using unrepeated_snoc [OF snoc.prems(1) [unfolded Arrival] True n] seen by simp
      have fresh_n: "n \<notin> set (nonces_of ?st a)" using nonces fresh_id by blast
      show ?thesis
      proof (cases "truthy_at (blockedByAddrRef ?st) a")
        case blocked: True
        note sb = step_blocked [OF True n blocked, of clk]
        from blocked have "truthy_at (blockedByAddr ?st) a" by (rule sub)
        with IH have "\<not> quiet [] (readings h sess a evs)" by blast
        then show ?thesis
          unfolding play_snoc Arrival step.simps using IH blocked sb(3)
          by (simp add: r quiet_append)
      next
        case unb: False
        with IH have w: "window_of ?st a = window_through [] (readings h sess a evs)" by simp
        have nw: "next_window (now_spam clk) (window_of ?st a) =
            window_through [] (readings h sess a evs @ [now_spam clk])"
          by (simp add: w window_through_append)
        show ?thesis
        proof (cases "length (next_window (now_spam clk) (window_of ?st a)) \<le>
            AUTO_BLOCK_MAX_MESSAGES")
          case True
          note sb = step_below [OF \<open>sender_of h sess m = Some a\<close> n fresh_id fresh_n unb True]
          show ?thesis
            unfolding play_snoc Arrival step.simps using sb(2,3) nw IH
            by (simp add: r quiet_append)
        next
          case False
          then have above: "length (next_window (now_spam clk) (window_of ?st a)) >
              AUTO_BLOCK_MAX_MESSAGES" by simp
          note stg = step_trigger [OF \<open>sender_of h sess m = Some a\<close> n fresh_id fresh_n unb above other]
          show ?thesis
            unfolding play_snoc Arrival step.simps
            using stg(3,4,6) nw IH False by (simp add: r quiet_append w)
        qed
      qed
    qed
  qed
qed

subsection \<open>The eleventh arrival\<close>

lemma eleventh_arrival:
  assumes unblocked: "\<not> truthy_at blocklist a" and other: "sess_status_address sess \<noteq> a"
    and sender: "sender_of h sess m = Some a"
    and recent: "readings h sess a pre = old @ recent" "length recent = 10"
    and close: "close_together (recent @ [now_spam c])"
    and quiet: "quiet [] (readings h sess a pre)"
    and unrep: "unrepeated h sess a [] (pre @ [Arrival c m])"
  shows "\<not> truthy_at (blockedByAddr (play h sess pre (connected blocklist))) a \<and>
    fst (snd (onMessage h sess c m (play h sess pre (connected blocklist)))) =
      Dropped ''auto_blocked'' \<and>
    map_option blk_reason
      (blockedByAddr (play h sess (pre @ [Arrival c m]) (connected blocklist)) a) =
      Some ''auto_spam'' \<and>
    messages (play h sess (pre @ [Arrival c m]) (connected blocklist)) =
      filter (\<lambda>x. msg_addr x \<noteq> a) (messages (play h sess pre (connected blocklist))) \<and>
    (\<forall>post c' m'.
       sender_of h sess m' = Some a \<and>
       unrepeated h sess a [] (pre @ Arrival c m # post @ [Arrival c' m']) \<and>
       (Commit \<in> set post \<or>
        close_together (recent @ readings h sess a (Arrival c m # post @ [Arrival c' m']))) \<longrightarrow>
       fst (snd (onMessage h sess c' m'
         (play h sess (pre @ Arrival c m # post) (connected blocklist)))) =
         (if truthy_at (blockedByAddrRef
               (play h sess (pre @ Arrival c m # post) (connected blocklist))) a
          then Dropped ''blocked'' else Dropped ''auto_blocked'') \<and>
       (Commit \<in> set post \<longrightarrow>
          truthy_at (blockedByAddrRef
            (play h sess (pre @ Arrival c m # post) (connected blocklist))) a))"
proof -
  let ?st0 = "connected blocklist"
  let ?st10 = "play h sess pre ?st0"
  let ?st11 = "play h sess (pre @ [Arrival c m]) ?st0"
  have sub: "truthy_at (blockedByAddrRef (play h sess evs ?st0)) a \<Longrightarrow>
      truthy_at (blockedByAddr (play h sess evs ?st0)) a" for evs
    by (rule play_ref_sub) simp_all
  have seen: "set (seenMsgId (play h sess evs ?st0)) = set (ids_in h sess evs)" for evs
    by (simp add: play_seen)
  have nonces: "\<forall>x k. k \<in> set (nonces_of (play h sess evs ?st0) x) \<longrightarrow>
      x @ '':'' @ k \<in> set (seenMsgId (play h sess evs ?st0))" for evs
    by (rule play_nonces_seen) simp
  have count: "length (next_window t (window_through [] (old @ recent @ ts))) > AUTO_BLOCK_MAX_MESSAGES"
    if "close_together (recent @ ts @ [t])" for ts t
  proof -
    have "next_window t (window_through [] (old @ recent @ ts)) =
        window_through (window_through [] old) (recent @ ts @ [t])"
      by (simp add: window_through_append)
    moreover have "length (recent @ ts @ [t]) \<le>
        length (window_through (window_through [] old) (recent @ ts @ [t]))"
      using that by (rule window_through_close_length)
    ultimately show ?thesis using recent(2) by (simp add: AUTO_BLOCK_MAX_MESSAGES_def)
  qed
  obtain n where n: "nonce_in h sess m = Some n" using sender sender_has_nonce by blast
  have unrep10: "unrepeated h sess a [] pre" using unrep by (simp add: unrepeated_append)
  note pf = play_facts [OF unblocked other unrep10]
  from pf quiet have unb_state: "\<not> truthy_at (blockedByAddr ?st10) a" by simp
  with sub [of pre] have unb: "\<not> truthy_at (blockedByAddrRef ?st10) a" by blast
  with pf have w: "window_of ?st10 a = window_through [] (old @ recent)" by (simp add: recent(1))
  have above: "length (next_window (now_spam c) (window_of ?st10 a)) > AUTO_BLOCK_MAX_MESSAGES"
    unfolding w using count [of "[]" "now_spam c"] close by simp
  have fresh_id: "a @ '':'' @ n \<notin> set (seenMsgId ?st10)"
    using unrepeated_snoc [OF unrep sender n] seen [of pre] by simp
  have fresh_n: "n \<notin> set (nonces_of ?st10 a)" using nonces [of pre] fresh_id by blast
  note stg = step_trigger [OF sender n fresh_id fresh_n unb above other]
  have st11: "?st11 = fst (onMessage h sess c m ?st10)" by (simp add: play_snoc)
  have blocked11: "truthy_at (blockedByAddr ?st11) a" unfolding st11 by (rule stg(4))
  have later: "fst (snd (onMessage h sess c' m'
         (play h sess (pre @ Arrival c m # post) ?st0))) =
         (if truthy_at (blockedByAddrRef (play h sess (pre @ Arrival c m # post) ?st0)) a
          then Dropped ''blocked'' else Dropped ''auto_blocked'') \<and>
       (Commit \<in> set post \<longrightarrow>
          truthy_at (blockedByAddrRef (play h sess (pre @ Arrival c m # post) ?st0)) a)"
    if s': "sender_of h sess m' = Some a"
      and u': "unrepeated h sess a [] (pre @ Arrival c m # post @ [Arrival c' m'])"
      and d': "Commit \<in> set post \<or>
        close_together (recent @ readings h sess a (Arrival c m # post @ [Arrival c' m']))"
    for post c' m'
  proof -
    let ?evs = "pre @ Arrival c m # post"
    let ?st = "play h sess ?evs ?st0"
    have split: "pre @ Arrival c m # post @ [Arrival c' m'] = ?evs @ [Arrival c' m']" by simp
    have play: "?st = play h sess post ?st11" by (simp add: play_append)
    obtain n' where n': "nonce_in h sess m' = Some n'" using s' sender_has_nonce by blast
    have fresh': "a @ '':'' @ n' \<notin> set (seenMsgId ?st)"
      using unrepeated_snoc [OF u' [unfolded split] s' n'] seen [of ?evs] by simp
    have committed: "truthy_at (blockedByAddrRef ?st) a" if "Commit \<in> set post"
      unfolding play using blocked11 that by (rule play_committed)
    have out: "fst (snd (onMessage h sess c' m' ?st)) =
         (if truthy_at (blockedByAddrRef ?st) a then Dropped ''blocked''
          else Dropped ''auto_blocked'')"
    proof (cases "truthy_at (blockedByAddrRef ?st) a")
      case True
      from step_blocked(1) [OF s' n' True, of c'] fresh' True show ?thesis by simp
    next
      case False
      with committed have "Commit \<notin> set post" by blast
      with d' have cl: "close_together
          (recent @ readings h sess a (Arrival c m # post @ [Arrival c' m']))" by blast
      have r': "readings h sess a (Arrival c m # post @ [Arrival c' m']) =
          (now_spam c # readings h sess a post) @ [now_spam c']"
        using s' sender by (simp add: readings_append)
      have re: "readings h sess a ?evs = old @ recent @ now_spam c # readings h sess a post"
        using sender by (simp add: readings_append recent(1))
      have unrep_evs: "unrepeated h sess a [] ?evs"
        using u' [unfolded split] by (simp only: unrepeated_append)
      note pf' = play_facts [OF unblocked other unrep_evs]
      with False have w': "window_of ?st a =
          window_through [] (old @ recent @ now_spam c # readings h sess a post)"
        by (simp add: re)
      have above': "length (next_window (now_spam c') (window_of ?st a)) >
          AUTO_BLOCK_MAX_MESSAGES"
        unfolding w' using cl [unfolded r'] by (intro count) simp
      have fresh_n': "n' \<notin> set (nonces_of ?st a)" using nonces [of ?evs] fresh' by blast
      from step_trigger(1) [OF s' n' fresh' fresh_n' False above' other] False
      show ?thesis by simp
    qed
    with committed show ?thesis by blast
  qed
  show ?thesis
  proof (intro conjI allI impI)
    show "\<not> truthy_at (blockedByAddr ?st10) a" by (rule unb_state)
    show "fst (snd (onMessage h sess c m ?st10)) = Dropped ''auto_blocked''" by (rule stg(1))
    show "map_option blk_reason (blockedByAddr ?st11 a) = Some ''auto_spam''"
      unfolding st11 using stg(3) unb_state by simp
    show "messages ?st11 = filter (\<lambda>x. msg_addr x \<noteq> a) (messages ?st10)"
      unfolding st11 by (rule stg(2))
  next
    fix post c' m'
    assume "sender_of h sess m' = Some a \<and>
       unrepeated h sess a [] (pre @ Arrival c m # post @ [Arrival c' m']) \<and>
       (Commit \<in> set post \<or>
        close_together (recent @ readings h sess a (Arrival c m # post @ [Arrival c' m'])))"
    then have l: "fst (snd (onMessage h sess c' m'
         (play h sess (pre @ Arrival c m # post) ?st0))) =
         (if truthy_at (blockedByAddrRef (play h sess (pre @ Arrival c m # post) ?st0)) a
          then Dropped ''blocked'' else Dropped ''auto_blocked'') \<and>
       (Commit \<in> set post \<longrightarrow>
          truthy_at (blockedByAddrRef (play h sess (pre @ Arrival c m # post) ?st0)) a)"
      using later by blast
    from l show "fst (snd (onMessage h sess c' m'
         (play h sess (pre @ Arrival c m # post) ?st0))) =
         (if truthy_at (blockedByAddrRef (play h sess (pre @ Arrival c m # post) ?st0)) a
          then Dropped ''blocked'' else Dropped ''auto_blocked'')" by blast
    assume "Commit \<in> set post"
    with l show "truthy_at (blockedByAddrRef (play h sess (pre @ Arrival c m # post) ?st0)) a"
      by blast
  qed
qed


lemma play_ref_arrivals:
  "Commit \<notin> set evs \<Longrightarrow> blockedByAddrRef (play h sess evs st) = blockedByAddrRef st"
proof (induction evs arbitrary: st)
  case Nil
  show ?case by simp
next
  case (Cons e es)
  then show ?case by (cases e) simp_all
qed

lemma play_other:
  "readings h sess a evs = [] \<Longrightarrow>
     window_of (play h sess evs st) a = window_of st a \<and>
     last_of (play h sess evs st) a = last_of st a"
proof (induction evs arbitrary: st)
  case Nil
  show ?case by simp
next
  case (Cons e es)
  show ?case
  proof (cases e)
    case Commit
    with Cons show ?thesis by simp
  next
    case (Arrival clk m)
    with Cons.prems have other: "sender_of h sess m \<noteq> Some a" and rest: "readings h sess a es = []"
      by (simp_all split: if_splits)
    from Cons.IH [OF rest, of "fst (onMessage h sess clk m st)"] onMessage_other(1,3) [OF other, of clk st]
    show ?thesis using Arrival by simp
  qed
qed

declare play_simps(2) [simp del]

subsection \<open>The envelopes of a burst\<close>

lemma burst_id_simps [simp]:
  "(burst_id i = burst_id j) = (i = j)"
  "burst_id i \<noteq> ''addr-K2:n1''"
  "''addr-K2:n1'' \<noteq> burst_id i"
  "burst_id i \<noteq> ''addr-K1:n0''"
  "''addr-K1:n0'' \<noteq> burst_id i"
  by (simp_all add: burst_id_def replicate_eq_replicate)

lemma burst_token: "token (replicate (Suc i) (CHR ''x''))"
  by (simp add: token_def is_space_def)

lemma burst_facts:
  assumes "i < 20"
  shows "sender_of test_host demo_session (snd (burst_envelope i)) = Some ''addr-K1''"
    and "nonce_in test_host demo_session (snd (burst_envelope i)) = Some (replicate (Suc i) (CHR ''x''))"
    and "verdict (parsed_of test_host demo_session (snd (burst_envelope i))) = Accepted"
    and "now_spam (fst (burst_envelope i)) = 1700000000000 + 100 * int i"
    and "now_rate (fst (burst_envelope i)) = 1700000000000 + 100 * int i"
proof -
  have len: "length (replicate (Suc i) (CHR ''x'')) \<le> 20" using assms by simp
  show "sender_of test_host demo_session (snd (burst_envelope i)) = Some ''addr-K1''"
    using demo_facts(1) [OF tokens(1) _ burst_token len, of "''msg''" "''hello''"]
    by (simp add: burst_envelope_def)
  show "nonce_in test_host demo_session (snd (burst_envelope i)) = Some (replicate (Suc i) (CHR ''x''))"
    using demo_facts(2) [OF tokens(1) _ burst_token len, of "''msg''" "''hello''"]
    by (simp add: burst_envelope_def)
  show "verdict (parsed_of test_host demo_session (snd (burst_envelope i))) = Accepted"
    using demo_verdict [OF tokens(1) burst_token len tokens(4)]
    by (simp add: burst_envelope_def)
  show "now_spam (fst (burst_envelope i)) = 1700000000000 + 100 * int i"
    "now_rate (fst (burst_envelope i)) = 1700000000000 + 100 * int i"
    by (simp_all add: burst_envelope_def at_def)
qed

lemma burst_parsed:
  "i < 20 \<Longrightarrow> parsed_of test_host demo_session (snd (burst_envelope i)) =
     [''type'' \<mapsto> ''msg'', ''nonce'' \<mapsto> replicate (Suc i) (CHR ''x''), ''room'' \<mapsto> demo_topic,
      ''text'' \<mapsto> ''hello'']"
  using demo_facts(3) [of "''K1''" "''msg''" "replicate (Suc i) (CHR ''x'')" "''hello''"]
    burst_token [of i]
  by (simp add: burst_envelope_def)

lemma burst_arrival_facts:
  assumes "i < 20"
  shows "ids_in test_host demo_session [burst_arrival i] = [burst_id i]"
    and "readings test_host demo_session a [burst_arrival i] =
           (if a = ''addr-K1'' then [1700000000000 + 100 * int i] else [])"
    and "burst_arrival i \<noteq> Commit"
proof -
  have "ident_of test_host demo_session (burst_arrival i) =
      Some (''addr-K1'' @ '':'' @ replicate (Suc i) (CHR ''x''))"
    unfolding burst_arrival_def using assms by (intro ident_identified burst_facts)
  then show "ids_in test_host demo_session [burst_arrival i] = [burst_id i]"
    by (simp add: burst_id_def)
  show "readings test_host demo_session a [burst_arrival i] =
           (if a = ''addr-K1'' then [1700000000000 + 100 * int i] else [])"
    using assms by (auto simp: burst_arrival_def burst_facts(1,4))
  show "burst_arrival i \<noteq> Commit" by (simp add: burst_arrival_def)
qed

lemma burst_Suc: "burst (Suc n) = burst n @ [burst_arrival n]"
  by (simp add: burst_def)

lemma burst_readings:
  "n \<le> 20 \<Longrightarrow> readings test_host demo_session a (burst n) =
     (if a = ''addr-K1'' then map (\<lambda>i. 1700000000000 + 100 * int i) [0..<n] else [])"
proof (induction n)
  case 0
  show ?case by (simp add: burst_def)
next
  case (Suc n)
  then show ?case by (simp add: burst_Suc readings_append burst_arrival_facts(2))
qed

lemma burst_ids:
  "n \<le> 20 \<Longrightarrow> ids_in test_host demo_session (burst n) = map burst_id [0..<n]"
proof (induction n)
  case 0
  show ?case by (simp add: burst_def)
next
  case (Suc n)
  then show ?case
    by (simp add: burst_Suc ids_in_append burst_arrival_facts(1) del: ids_in.simps(2))
qed

lemma burst_nonempty: "0 < n \<Longrightarrow> burst n \<noteq> []"
  by (simp add: burst_def)

lemma burst_no_commit: "Commit \<notin> set (burst n)"
  by (auto simp: burst_def burst_arrival_def)

lemma distinct_unrepeated:
  "distinct (earlier @ ids_in h sess evs) \<Longrightarrow> unrepeated h sess a earlier evs"
proof (induction evs arbitrary: earlier)
  case Nil
  show ?case by simp
next
  case (Cons e es)
  show ?case
  proof (cases "ident_of h sess e")
    case None
    with Cons show ?thesis by simp
  next
    case (Some i)
    with Cons.prems have "distinct ((earlier @ [i]) @ ids_in h sess es)" "i \<notin> set earlier"
      by simp_all
    with Cons.IH [of "earlier @ [i]"] Some show ?thesis by auto
  qed
qed

lemma more_tokens [simp]: "token ''K2''" "token ''n0''"
  by (simp_all add: token_def is_space_def)

lemma bystander_facts:
  "ids_in test_host demo_session [bystander] = [''addr-K2:n1'']"
  "readings test_host demo_session a [bystander] =
     (if a = ''addr-K2'' then [1700000000950] else [])"
  "bystander \<noteq> Commit"
proof -
  have s: "sender_of test_host demo_session (demo_envelope ''K2'' ''msg'' ''n1'' ''hello'') =
      Some ''addr-K2''"
    using demo_facts(1) [of "''K2''" "''msg''" "''n1''" "''hello''"] by simp
  have n: "nonce_in test_host demo_session (demo_envelope ''K2'' ''msg'' ''n1'' ''hello'') =
      Some ''n1''"
    using demo_facts(2) [of "''K2''" "''msg''" "''n1''" "''hello''"] by simp
  have "ident_of test_host demo_session bystander = Some ''addr-K2:n1''"
    using ident_identified [OF s n, of "at 1700000000950"] by (simp add: bystander_def)
  then show "ids_in test_host demo_session [bystander] = [''addr-K2:n1'']" by simp
  show "readings test_host demo_session a [bystander] =
     (if a = ''addr-K2'' then [1700000000950] else [])"
    using s by (auto simp: bystander_def at_def)
  show "bystander \<noteq> Commit" by (simp add: bystander_def)
qed

lemma early_facts:
  "ids_in test_host demo_session [early] = [''addr-K1:n0'']"
  "readings test_host demo_session a [early] =
     (if a = ''addr-K1'' then [1699999990000] else [])"
  "early \<noteq> Commit"
proof -
  have s: "sender_of test_host demo_session (demo_envelope ''K1'' ''msg'' ''n0'' ''hello'') =
      Some ''addr-K1''"
    using demo_facts(1) [of "''K1''" "''msg''" "''n0''" "''hello''"] by simp
  have n: "nonce_in test_host demo_session (demo_envelope ''K1'' ''msg'' ''n0'' ''hello'') =
      Some ''n0''"
    using demo_facts(2) [of "''K1''" "''msg''" "''n0''" "''hello''"] by simp
  have "ident_of test_host demo_session early = Some ''addr-K1:n0''"
    using ident_identified [OF s n, of "at 1699999990000"] by (simp add: early_def)
  then show "ids_in test_host demo_session [early] = [''addr-K1:n0'']" by simp
  show "readings test_host demo_session a [early] =
     (if a = ''addr-K1'' then [1699999990000] else [])"
    using s by (auto simp: early_def at_def)
  show "early \<noteq> Commit" by (simp add: early_def)
qed

subsection \<open>A session with a burst\<close>

lemma readings_Cons:
  "es \<noteq> [] \<Longrightarrow> readings h sess a (e # es) = readings h sess a [e] @ readings h sess a es"
  using readings_append [of h sess a "[e]" es] by simp

lemma ids_in_Cons:
  "es \<noteq> [] \<Longrightarrow> ids_in h sess (e # es) = ids_in h sess [e] @ ids_in h sess es"
  using ids_in_append [of h sess "[e]" es] by simp

lemma ids_in_Commit [simp]: "ids_in h sess [Commit] = []"
  by simp

lemmas session_simps = readings_append readings_Cons ids_in_append ids_in_Cons burst_readings
  burst_ids bystander_facts early_facts burst_arrival_facts burst_nonempty

lemma quiet_after_gap:
  "\<forall>x\<in>set w. \<forall>t\<in>set ts. \<not> t - x < AUTO_BLOCK_WINDOW_MS \<Longrightarrow> quiet w ts = quiet [] ts"
  by (cases ts) (simp_all add: next_window_def)

lemma burst_close:
  "n \<le> 20 \<Longrightarrow> close_together (map (\<lambda>i. 1700000000000 + 100 * int i) [0..<n])"
  by (auto simp: close_together_def AUTO_BLOCK_WINDOW_MS_def)

lemma session_readings:
  "readings test_host demo_session ''addr-K1'' (early # burst 10 @ [bystander]) =
     [1699999990000] @ map (\<lambda>i. 1700000000000 + 100 * int i) [0..<10]"
  "length (map (\<lambda>i. 1700000000000 + 100 * int i) [0..<10]) = 10"
  "close_together (map (\<lambda>i. 1700000000000 + 100 * int i) [0..<10] @
     [now_spam (fst (burst_envelope 10))])"
  "close_together (map (\<lambda>i. 1700000000000 + 100 * int i) [0..<10] @
     readings test_host demo_session ''addr-K1'' (burst_arrival 10 # [] @ [burst_arrival 11]))"
  by (auto simp add: session_simps close_together_def AUTO_BLOCK_WINDOW_MS_def burst_facts(4)
      simp del: ids_in.simps(2))

lemma session_quiet:
  "quiet [] (readings test_host demo_session ''addr-K1'' (early # burst 10 @ [bystander]))"
proof -
  have "quiet [1699999990000] (map (\<lambda>i. 1700000000000 + 100 * int i) [0..<10]) =
      quiet [] (map (\<lambda>i. 1700000000000 + 100 * int i) [0..<10])"
    by (rule quiet_after_gap) (auto simp: AUTO_BLOCK_WINDOW_MS_def)
  moreover have "quiet [] (map (\<lambda>i. 1700000000000 + 100 * int i) [0..<10])"
    by (rule quiet_close) (simp_all add: burst_close AUTO_BLOCK_MAX_MESSAGES_def)
  ultimately show ?thesis
    unfolding session_readings(1)
    by (simp add: quiet_append next_window_def AUTO_BLOCK_MAX_MESSAGES_def del: upt.simps)
qed

lemma session_ids:
  "unrepeated test_host demo_session ''addr-K1'' [] ((early # burst 10 @ [bystander]) @ [burst_arrival 10])"
  "unrepeated test_host demo_session ''addr-K1'' []
     ((early # burst 10 @ [bystander]) @ burst_arrival 10 # [] @ [burst_arrival 11])"
  "unrepeated test_host demo_session ''addr-K1'' []
     ((early # burst 10 @ [bystander]) @ burst_arrival 10 # [Commit] @ [burst_arrival 11])"
  by (rule distinct_unrepeated,
      auto simp add: session_simps distinct_map inj_on_def simp del: ids_in.simps(2))+


lemma deliver_pushes:
  assumes "field p ''type'' = ''msg''" "trim (field p ''text'') \<noteq> []"
    and "length (trim (field p ''text'')) \<le> 500"
  shows "snd (deliver h clk p a i st) = Accepted"
    and "a \<in> msg_addr ` set (messages (fst (deliver h clk p a i st)))"
  using assms by (simp_all add: deliver_def Let_def accept_def pushMessage_def)

lemma first_message_kept:
  assumes s1: "sender_of h sess m1 = Some a"
    and unblocked: "\<not> truthy_at blocklist a"
    and start: "1000 \<le> now_rate c1"
    and msg: "field (parsed_of h sess m1) ''type'' = ''msg''"
      "trim (field (parsed_of h sess m1) ''text'') \<noteq> []"
      "length (trim (field (parsed_of h sess m1) ''text'')) \<le> 500"
  shows "fst (snd (onMessage h sess c1 m1 (connected blocklist))) = Accepted"
    and "map msg_addr (messages (fst (onMessage h sess c1 m1 (connected blocklist)))) = [a]"
    and "last_of (fst (onMessage h sess c1 m1 (connected blocklist))) a = now_rate c1"
proof -
  let ?st0 = "connected blocklist"
  from s1 obtain n1 where n1: "nonce_in h sess m1 = Some n1" using sender_has_nonce by blast
  have b1: "length (next_window (now_spam c1) (window_of ?st0 a)) \<le> AUTO_BLOCK_MAX_MESSAGES"
    by (simp add: next_window_def AUTO_BLOCK_MAX_MESSAGES_def)
  have f1: "a @ '':'' @ n1 \<notin> set (seenMsgId ?st0)" "n1 \<notin> set (nonces_of ?st0 a)" by simp_all
  have u1: "\<not> truthy_at (blockedByAddrRef ?st0) a" using unblocked by simp
  note t1 = step_through [OF s1 n1 f1 u1 b1]
  have r1: "\<not> now_rate c1 - last_of ?st0 a < 1000" using start by simp
  note d1 = through_delivered [OF r1, of h sess m1 n1]
  show "fst (snd (onMessage h sess c1 m1 ?st0)) = Accepted"
    unfolding t1(2) d1(1) using msg by (rule deliver_pushes(1))
  show "map msg_addr (messages (fst (onMessage h sess c1 m1 ?st0))) = [a]"
    unfolding t1(1) d1(2) using deliver_message(3) [OF msg, of _ h c1 a] by simp
  show "last_of (fst (onMessage h sess c1 m1 ?st0)) a = now_rate c1"
    unfolding t1(1) by (rule d1(3))
qed

lemma hello: "trim ''hello'' = ''hello''"
  by (rule trim_no_space) (simp add: is_space_def)

lemma not_blocked_K2: "\<not> truthy_at Map.empty ''addr-K2''"
  by (simp add: truthy_at_def object_prototype_keys_def)

lemma bystander_delivered:
  "''addr-K2'' \<in> msg_addr ` set (messages
     (play test_host demo_session (early # burst 10 @ [bystander]) (connected Map.empty)))"
proof -
  let ?S = "play test_host demo_session (early # burst 10) (connected Map.empty)"
  let ?m = "demo_envelope ''K2'' ''msg'' ''n1'' ''hello''"
  let ?c = "at 1700000000950"
  have s: "sender_of test_host demo_session ?m = Some ''addr-K2''"
    using demo_facts(1) [of "''K2''" "''msg''" "''n1''" "''hello''"] by simp
  have n: "nonce_in test_host demo_session ?m = Some ''n1''"
    using demo_facts(2) [of "''K2''" "''msg''" "''n1''" "''hello''"] by simp
  have p: "parsed_of test_host demo_session ?m =
      [''type'' \<mapsto> ''msg'', ''nonce'' \<mapsto> ''n1'', ''room'' \<mapsto> demo_topic, ''text'' \<mapsto> ''hello'']"
    using demo_facts(3) [of "''K2''" "''msg''" "''n1''" "''hello''"] by simp
  have seen: "''addr-K2'' @ '':'' @ ''n1'' \<notin> set (seenMsgId ?S)"
    by (auto simp add: play_seen session_simps simp del: ids_in.simps(2))
  have "\<forall>x k. k \<in> set (nonces_of ?S x) \<longrightarrow> x @ '':'' @ k \<in> set (seenMsgId ?S)"
    by (rule play_nonces_seen) simp
  with seen have nonce: "''n1'' \<notin> set (nonces_of ?S ''addr-K2'')" by blast
  have "Commit \<notin> set (early # burst 10)" using burst_no_commit [of 10] early_facts(3) by auto
  from play_ref_arrivals [OF this, of test_host demo_session "connected Map.empty"]
  have ref: "\<not> truthy_at (blockedByAddrRef ?S) ''addr-K2''" using not_blocked_K2 by simp
  have "readings test_host demo_session ''addr-K2'' (early # burst 10) = []"
    by (simp add: session_simps)
  from play_other [OF this, of "connected Map.empty"]
  have quiet: "window_of ?S ''addr-K2'' = []" "last_of ?S ''addr-K2'' = 0" by simp_all
  have below: "length (next_window (now_spam ?c) (window_of ?S ''addr-K2'')) \<le>
      AUTO_BLOCK_MAX_MESSAGES"
    by (simp add: quiet next_window_def AUTO_BLOCK_MAX_MESSAGES_def)
  note t = step_through [OF s n seen nonce ref below]
  have r: "\<not> now_rate ?c - last_of ?S ''addr-K2'' < 1000" by (simp add: quiet at_def)
  note d = through_delivered [OF r, of test_host demo_session ?m "''n1''"]
  have "''addr-K2'' \<in> msg_addr ` set (messages (fst (onMessage test_host demo_session ?c ?m ?S)))"
    unfolding t(1) d(2) by (rule deliver_pushes(2)) (simp_all add: p field_def hello)
  moreover have "play test_host demo_session (early # burst 10 @ [bystander]) (connected Map.empty) =
      fst (onMessage test_host demo_session ?c ?m ?S)"
    using play_append [of test_host demo_session "early # burst 10" "[bystander]" "connected Map.empty"]
    by (simp add: bystander_def play_simps(2))
  ultimately show ?thesis by (simp only:)
qed

subsection \<open>The automatic block\<close>

text \<open>
  \<^bold>\<open>C2\<close>, as amended. An address that is not blocked when the session starts, and is not
  the address that the handler holds as its own, delivers envelopes that the first part of
  the handler lets through, none of them with a message identity that an earlier arrival
  has carried. The burst detector has not fired for the address so far, and the last ten
  readings for the address and the reading for one more envelope lie in one window of
  2000 ms. Whatever else has been handled in between, and whenever React has committed,
  this eleventh envelope is dropped as \<open>auto_blocked\<close>; the address was not blocked before
  it and is blocked with the reason \<open>auto_spam\<close> after it; and the messages of the address
  are removed from the local history, which keeps the messages of every other address. A
  later envelope of the address with a new message identity is dropped as \<open>blocked\<close> when
  React has committed after the block; before that commit it is dropped as \<open>auto_blocked\<close>
  as long as its reading lies in one window with the earlier ones.
\<close>

theorem auto_block_purges_history:
  assumes "\<not> truthy_at blocklist a" and "sess_status_address sess \<noteq> a"
    and "sender_of h sess m = Some a"
    and "readings h sess a pre = old @ recent" and "length recent = 10"
    and "close_together (recent @ [now_spam c])"
    and "quiet [] (readings h sess a pre)"
    and "unrepeated h sess a [] (pre @ [Arrival c m])"
  shows "\<not> truthy_at (blockedByAddr (play h sess pre (connected blocklist))) a \<and>
    fst (snd (onMessage h sess c m (play h sess pre (connected blocklist)))) =
      Dropped ''auto_blocked'' \<and>
    map_option blk_reason
      (blockedByAddr (play h sess (pre @ [Arrival c m]) (connected blocklist)) a) =
      Some ''auto_spam'' \<and>
    messages (play h sess (pre @ [Arrival c m]) (connected blocklist)) =
      filter (\<lambda>x. msg_addr x \<noteq> a) (messages (play h sess pre (connected blocklist))) \<and>
    (\<forall>post c' m'.
       sender_of h sess m' = Some a \<and>
       unrepeated h sess a [] (pre @ Arrival c m # post @ [Arrival c' m']) \<and>
       (Commit \<in> set post \<or>
        close_together (recent @ readings h sess a (Arrival c m # post @ [Arrival c' m']))) \<longrightarrow>
       fst (snd (onMessage h sess c' m'
         (play h sess (pre @ Arrival c m # post) (connected blocklist)))) =
         (if truthy_at (blockedByAddrRef
               (play h sess (pre @ Arrival c m # post) (connected blocklist))) a
          then Dropped ''blocked'' else Dropped ''auto_blocked'') \<and>
       (Commit \<in> set post \<longrightarrow>
          truthy_at (blockedByAddrRef
            (play h sess (pre @ Arrival c m # post) (connected blocklist))) a))"
  using assms by (rule eleventh_arrival)

theorem auto_block_purges_history_witness:
  "readings test_host demo_session ''addr-K1'' (early # burst 10 @ [bystander]) =
     [1699999990000] @ map (\<lambda>i. 1700000000000 + 100 * int i) [0..<10] \<and>
   close_together (map (\<lambda>i. 1700000000000 + 100 * int i) [0..<10] @
     [now_spam (fst (burst_envelope 10))]) \<and>
   quiet [] (readings test_host demo_session ''addr-K1'' (early # burst 10 @ [bystander])) \<and>
   unrepeated test_host demo_session ''addr-K1'' []
     ((early # burst 10 @ [bystander]) @ [burst_arrival 10]) \<and>
   fst (snd (onMessage test_host demo_session (fst (burst_envelope 10)) (snd (burst_envelope 10))
     (play test_host demo_session (early # burst 10 @ [bystander]) (connected Map.empty)))) =
     Dropped ''auto_blocked'' \<and>
   map_option blk_reason
     (blockedByAddr (play test_host demo_session ((early # burst 10 @ [bystander]) @ [burst_arrival 10])
        (connected Map.empty)) ''addr-K1'') = Some ''auto_spam'' \<and>
   ''addr-K2'' \<in> msg_addr ` set (messages
     (play test_host demo_session ((early # burst 10 @ [bystander]) @ [burst_arrival 10])
        (connected Map.empty))) \<and>
   ''addr-K1'' \<notin> msg_addr ` set (messages
     (play test_host demo_session ((early # burst 10 @ [bystander]) @ [burst_arrival 10])
        (connected Map.empty))) \<and>
   fst (snd (onMessage test_host demo_session (fst (burst_envelope 11)) (snd (burst_envelope 11))
     (play test_host demo_session ((early # burst 10 @ [bystander]) @ burst_arrival 10 # [Commit])
        (connected Map.empty)))) = Dropped ''blocked'' \<and>
   fst (snd (onMessage test_host demo_session (fst (burst_envelope 11)) (snd (burst_envelope 11))
     (play test_host demo_session ((early # burst 10 @ [bystander]) @ burst_arrival 10 # [])
        (connected Map.empty)))) = Dropped ''auto_blocked''"
proof -
  let ?pre = "early # burst 10 @ [bystander]"
  let ?c = "fst (burst_envelope 10)" and ?m = "snd (burst_envelope 10)"
  let ?c' = "fst (burst_envelope 11)" and ?m' = "snd (burst_envelope 11)"
  have own: "sess_status_address demo_session \<noteq> ''addr-K1''" by (simp add: demo_session_def)
  have s: "sender_of test_host demo_session ?m = Some ''addr-K1''" by (rule burst_facts(1)) simp
  have s': "sender_of test_host demo_session ?m' = Some ''addr-K1''" by (rule burst_facts(1)) simp
  note th = auto_block_purges_history [OF not_blocked_K1 own s session_readings(1,2,3)
      session_quiet session_ids(1) [unfolded burst_arrival_def], folded burst_arrival_def]
  from th [THEN conjunct2, THEN conjunct1]
  have 1: "fst (snd (onMessage test_host demo_session ?c ?m
      (play test_host demo_session ?pre (connected Map.empty)))) = Dropped ''auto_blocked''" .
  from th [THEN conjunct2, THEN conjunct2, THEN conjunct1]
  have 2: "map_option blk_reason
     (blockedByAddr (play test_host demo_session (?pre @ [burst_arrival 10])
        (connected Map.empty)) ''addr-K1'') = Some ''auto_spam''" .
  from th [THEN conjunct2, THEN conjunct2, THEN conjunct2, THEN conjunct1]
  have 3: "messages (play test_host demo_session (?pre @ [burst_arrival 10])
        (connected Map.empty)) =
      filter (\<lambda>x. msg_addr x \<noteq> ''addr-K1'')
        (messages (play test_host demo_session ?pre (connected Map.empty)))" .
  note later = th [THEN conjunct2, THEN conjunct2, THEN conjunct2, THEN conjunct2, rule_format]
  have 4: "''addr-K2'' \<in> msg_addr ` set (messages
     (play test_host demo_session (?pre @ [burst_arrival 10]) (connected Map.empty)))"
    unfolding 3 using bystander_delivered by auto
  have 5: "''addr-K1'' \<notin> msg_addr ` set (messages
     (play test_host demo_session (?pre @ [burst_arrival 10]) (connected Map.empty)))"
    unfolding 3 by auto
  from later [of ?m' "[Commit]" ?c'] s' session_ids(3) [unfolded burst_arrival_def [of 11]]
  have 6: "fst (snd (onMessage test_host demo_session ?c' ?m'
     (play test_host demo_session (?pre @ burst_arrival 10 # [Commit]) (connected Map.empty)))) =
     Dropped ''blocked''"
    by simp
  have ref: "\<not> truthy_at (blockedByAddrRef
      (play test_host demo_session (?pre @ burst_arrival 10 # []) (connected Map.empty))) ''addr-K1''"
  proof -
    have "Commit \<notin> set (?pre @ burst_arrival 10 # [])"
      using burst_no_commit [of 10] bystander_facts(3) early_facts(3) burst_arrival_facts(3) [of 10]
      by auto
    from play_ref_arrivals [OF this, of test_host demo_session "connected Map.empty"]
    show ?thesis using not_blocked_K1 by simp
  qed
  from later [of ?m' "[]" ?c'] s' session_ids(2) [unfolded burst_arrival_def [of 11]]
    session_readings(4) [unfolded burst_arrival_def [of 11]] ref
  have 7: "fst (snd (onMessage test_host demo_session ?c' ?m'
     (play test_host demo_session (?pre @ burst_arrival 10 # []) (connected Map.empty)))) =
     Dropped ''auto_blocked''"
    by simp
  from session_readings(1,3) session_quiet session_ids(1) 1 2 4 5 6 7 show ?thesis by blast
qed


text \<open>The history during a burst: the first message stays until the block.\<close>

lemma burst_unrepeated: "n \<le> 20 \<Longrightarrow> unrepeated test_host demo_session a [] (burst n)"
  by (rule distinct_unrepeated) (simp add: burst_ids distinct_map inj_on_def)

lemma burst_history:
  "n < 10 \<Longrightarrow>
     map msg_addr (messages (play test_host demo_session (burst (Suc n)) (connected Map.empty))) =
       [''addr-K1''] \<and>
     last_of (play test_host demo_session (burst (Suc n)) (connected Map.empty)) ''addr-K1'' =
       1700000000000"
proof (induction n)
  case 0
  have s: "sender_of test_host demo_session (snd (burst_envelope 0)) = Some ''addr-K1''"
    by (rule burst_facts(1)) simp
  have t: "1000 \<le> now_rate (fst (burst_envelope 0))" by (simp add: burst_facts(5))
  note f = first_message_kept [OF s not_blocked_K1 t]
  have p: "parsed_of test_host demo_session (snd (burst_envelope 0)) =
     [''type'' \<mapsto> ''msg'', ''nonce'' \<mapsto> replicate (Suc 0) (CHR ''x''), ''room'' \<mapsto> demo_topic,
      ''text'' \<mapsto> ''hello'']" by (rule burst_parsed) simp
  have "map msg_addr (messages (fst (onMessage test_host demo_session (fst (burst_envelope 0))
      (snd (burst_envelope 0)) (connected Map.empty)))) = [''addr-K1'']"
    by (rule f(2)) (simp_all add: p field_def hello)
  moreover have "last_of (fst (onMessage test_host demo_session (fst (burst_envelope 0))
      (snd (burst_envelope 0)) (connected Map.empty))) ''addr-K1'' = 1700000000000"
    using f(3) by (simp add: burst_facts(5) p field_def hello)
  ultimately show ?case by (simp add: burst_def burst_arrival_def play_simps(2))
next
  case (Suc n)
  let ?S = "play test_host demo_session (burst (Suc n)) (connected Map.empty)"
  let ?c = "fst (burst_envelope (Suc n))" and ?m = "snd (burst_envelope (Suc n))"
  from Suc.prems have n: "n < 10" "Suc n < 20" "Suc n \<le> 20" by simp_all
  note IH = Suc.IH [OF n(1)]
  have s: "sender_of test_host demo_session ?m = Some ''addr-K1''" using n(2) by (rule burst_facts(1))
  have k: "nonce_in test_host demo_session ?m = Some (replicate (Suc (Suc n)) (CHR ''x''))"
    using n(2) by (rule burst_facts(2))
  have seen: "''addr-K1'' @ '':'' @ replicate (Suc (Suc n)) (CHR ''x'') \<notin> set (seenMsgId ?S)"
  proof -
    have "''addr-K1'' @ '':'' @ replicate (Suc (Suc n)) (CHR ''x'') = burst_id (Suc n)"
      by (simp add: burst_id_def)
    moreover have "burst_id (Suc n) \<notin> set (seenMsgId ?S)"
      using n(3) by (auto simp add: play_seen burst_ids)
    ultimately show ?thesis by (simp only: not_False_eq_True)
  qed
  have "\<forall>x k. k \<in> set (nonces_of ?S x) \<longrightarrow> x @ '':'' @ k \<in> set (seenMsgId ?S)"
    by (rule play_nonces_seen) simp
  with seen have nonce: "replicate (Suc (Suc n)) (CHR ''x'') \<notin> set (nonces_of ?S ''addr-K1'')"
    by blast
  have ref: "\<not> truthy_at (blockedByAddrRef ?S) ''addr-K1''"
    using not_blocked_K1 by (simp add: play_ref_arrivals burst_no_commit)
  have own: "sess_status_address demo_session \<noteq> ''addr-K1''" by (simp add: demo_session_def)
  from play_facts [OF not_blocked_K1 own burst_unrepeated [OF n(3)]] ref
  have w: "window_of ?S ''addr-K1'' =
      window_through [] (readings test_host demo_session ''addr-K1'' (burst (Suc n)))"
    by simp
  have "length (next_window (now_spam ?c) (window_of ?S ''addr-K1'')) \<le>
      Suc (length (window_of ?S ''addr-K1''))" by (rule next_window_length)
  then have below: "length (next_window (now_spam ?c) (window_of ?S ''addr-K1'')) \<le>
      AUTO_BLOCK_MAX_MESSAGES"
    using Suc.prems n(3) burst_close [of "Suc n"]
    by (simp add: w burst_readings window_through_close_empty AUTO_BLOCK_MAX_MESSAGES_def
        del: upt.simps)
  note t = step_through [OF s k seen nonce ref below]
  have "now_rate ?c - last_of ?S ''addr-K1'' < 1000"
    using IH Suc.prems n(2) by (simp add: burst_facts(5))
  note l = through_limited [OF this, of test_host demo_session ?m "replicate (Suc (Suc n)) (CHR ''x'')"]
  have "play test_host demo_session (burst (Suc (Suc n))) (connected Map.empty) =
      fst (onMessage test_host demo_session ?c ?m ?S)"
    by (simp add: burst_Suc [of "Suc n"] play_snoc burst_arrival_def)
  then show ?case using IH l(2,3) by (simp add: t(1))
qed

text \<open>
  As first stated, the messages accepted from the address before the block would remain in
  the history. In a burst of eleven envelopes the first is accepted; when the eleventh
  arrives the history holds that message, and after the eleventh the history is empty.
\<close>

theorem auto_block_purges_history_counterexample:
  "fst (snd (onMessage test_host demo_session (fst (burst_envelope 0)) (snd (burst_envelope 0))
      (connected Map.empty))) = Accepted \<and>
   map msg_addr (messages (play test_host demo_session (burst 10) (connected Map.empty))) =
     [''addr-K1''] \<and>
   fst (snd (onMessage test_host demo_session (fst (burst_envelope 10)) (snd (burst_envelope 10))
      (play test_host demo_session (burst 10) (connected Map.empty)))) = Dropped ''auto_blocked'' \<and>
   messages (play test_host demo_session (burst 11) (connected Map.empty)) = []"
proof -
  have s0: "sender_of test_host demo_session (snd (burst_envelope 0)) = Some ''addr-K1''"
    by (rule burst_facts(1)) simp
  have t0: "1000 \<le> now_rate (fst (burst_envelope 0))" by (simp add: burst_facts(5))
  have p0: "parsed_of test_host demo_session (snd (burst_envelope 0)) =
     [''type'' \<mapsto> ''msg'', ''nonce'' \<mapsto> replicate (Suc 0) (CHR ''x''), ''room'' \<mapsto> demo_topic,
      ''text'' \<mapsto> ''hello'']" by (rule burst_parsed) simp
  have a: "fst (snd (onMessage test_host demo_session (fst (burst_envelope 0))
      (snd (burst_envelope 0)) (connected Map.empty))) = Accepted"
    by (rule first_message_kept(1) [OF s0 not_blocked_K1 t0]) (simp_all add: p0 field_def hello)
  have b: "map msg_addr (messages (play test_host demo_session (burst 10) (connected Map.empty))) =
     [''addr-K1'']"
    using burst_history [of 9] by simp
  have own: "sess_status_address demo_session \<noteq> ''addr-K1''" by (simp add: demo_session_def)
  have s10: "sender_of test_host demo_session (snd (burst_envelope 10)) = Some ''addr-K1''"
    by (rule burst_facts(1)) simp
  have eleven: "burst 11 = burst 10 @ [burst_arrival 10]" using burst_Suc [of 10] by simp
  have rd: "readings test_host demo_session ''addr-K1'' (burst 10) =
      [] @ map (\<lambda>i. 1700000000000 + 100 * int i) [0..<10]"
    by (simp add: burst_readings)
  have len: "length (map (\<lambda>i. 1700000000000 + 100 * int i) [0..<10]) = 10" by simp
  have cl: "close_together (map (\<lambda>i. 1700000000000 + 100 * int i) [0..<10] @
      [now_spam (fst (burst_envelope 10))])"
    by (rule session_readings(3))
  have q: "quiet [] (readings test_host demo_session ''addr-K1'' (burst 10))"
    unfolding rd append_Nil
    by (rule quiet_close) (simp_all add: burst_close AUTO_BLOCK_MAX_MESSAGES_def)
  have un: "unrepeated test_host demo_session ''addr-K1'' []
      (burst 10 @ [Arrival (fst (burst_envelope 10)) (snd (burst_envelope 10))])"
    using burst_unrepeated [of 11 "''addr-K1''"] by (simp add: eleven burst_arrival_def)
  note ea = eleventh_arrival [OF not_blocked_K1 own s10 rd len cl q un, folded burst_arrival_def,
      folded eleven]
  from ea [THEN conjunct2, THEN conjunct1]
  have c: "fst (snd (onMessage test_host demo_session (fst (burst_envelope 10))
      (snd (burst_envelope 10)) (play test_host demo_session (burst 10) (connected Map.empty)))) =
      Dropped ''auto_blocked''" .
  from ea [THEN conjunct2, THEN conjunct2, THEN conjunct2, THEN conjunct1]
  have "messages (play test_host demo_session (burst 11) (connected Map.empty)) =
      filter (\<lambda>x. msg_addr x \<noteq> ''addr-K1'')
        (messages (play test_host demo_session (burst 10) (connected Map.empty)))" .
  moreover have "msg_addr x = ''addr-K1''"
    if "x \<in> set (messages (play test_host demo_session (burst 10) (connected Map.empty)))" for x
  proof -
    from that have "msg_addr x \<in> set (map msg_addr
        (messages (play test_host demo_session (burst 10) (connected Map.empty))))" by simp
    then show ?thesis unfolding b by simp
  qed
  ultimately have d: "messages (play test_host demo_session (burst 11) (connected Map.empty)) = []"
    by (simp add: filter_empty_conv)
  from a b c d show ?thesis by blast
qed

end
